theory Spec2Isabelle
  imports Main "HOL-Library.Word"
begin

unbundle bit_operations_syntax

section \<open>The stream server's \<open>main\<close>: data\<close>

text \<open>
  The program is the C function \<open>main\<close> of the stream server. It reads the camera
  configuration, allocates one pixel region for all frame buffers, spawns one worker thread
  per camera, broadcasts a start anchor, and then runs the synchronizer loop on the main
  thread until 100 aligned frame sets have been logged.
\<close>

definition TIMESTAMP_DELAY :: int where
  "TIMESTAMP_DELAY = 1"

definition FRAME_BUFS_PER_THREAD :: nat where
  "FRAME_BUFS_PER_THREAD = 32"

text \<open>
  \<open>struct ts_frame_buf\<close>: a capture timestamp (compared with a \<open>uint64_t\<close>) and a
  pointer to the pixel region. The pointer is kept as the 64-bit address it holds.
  A \<open>struct ts_frame_buf*\<close> is an option: \<open>None\<close> is \<open>NULL\<close>, and \<open>Some b\<close> carries the
  contents of the struct pointed to. The synchronizer only reads a buffer between taking it
  from a filled queue and handing it to an empty queue, and the worker does not write a
  buffer it has published, so the contents are fixed for as long as the handle is held.
\<close>

record ts_frame_buf =
  timestamp :: "64 word"
  frame_buf :: "64 word"

type_synonym handle = "ts_frame_buf option"

datatype error = NullDeref

subsection \<open>The queues, as the main thread sees them\<close>

text \<open>
  Modelled from the spec: \<open>lockfree_containers.h\<close> (\<open>struct lf_queue\<close>, \<open>lf_queue_dq\<close>,
  \<open>lf_queue_nq\<close>) is not among the sources. The spec describes a single-producer,
  single-consumer FIFO whose \<open>dequeue\<close> returns nothing when the queue is empty and never
  blocks. The other end of every queue is driven by a worker thread running concurrently,
  so what a call returns is an input of the main thread: \<open>feed q k\<close> is the result of
  the \<open>k\<close>-th call \<open>lf_queue_dq(&frame_queues[q])\<close>, \<open>None\<close> when the queue was found
  empty. A queue records how often it has been polled and which handles have been passed
  to \<open>lf_queue_nq\<close> since the synchronizer loop was entered, oldest first. The return
  value of \<open>lf_queue_nq\<close> is ignored by \<open>main\<close>.
\<close>

type_synonym feed = "nat \<Rightarrow> nat \<Rightarrow> handle"

record lf_queue =
  polled :: nat
  enqueued :: "handle list"

record sync_state =
  frame_queues :: "lf_queue list"
  current_frames :: "handle list"
  complete_sets :: "32 word"
  log_lines :: "(32 word \<times> 64 word) list"

definition lf_queue_dq :: "feed \<Rightarrow> nat \<Rightarrow> sync_state \<Rightarrow> handle \<times> sync_state" where
  "lf_queue_dq fd q s =
     (fd q (polled (frame_queues s ! q)),
      s\<lparr>frame_queues := (frame_queues s)
           [q := (frame_queues s ! q)\<lparr>polled := Suc (polled (frame_queues s ! q))\<rparr>]\<rparr>)"

definition lf_queue_nq :: "nat \<Rightarrow> handle \<Rightarrow> sync_state \<Rightarrow> sync_state" where
  "lf_queue_nq q h s =
     s\<lparr>frame_queues := (frame_queues s)
          [q := (frame_queues s ! q)\<lparr>enqueued := enqueued (frame_queues s ! q) @ [h]\<rparr>]\<rparr>"

section \<open>The synchronizer loop\<close>

text \<open>
  Lines 159 to 163: \<open>current_frames\<close> is cleared by \<open>memset\<close>, \<open>complete_sets\<close> is 0.
  The queues \<open>frame_queues[i*2]\<close> (filled) and \<open>frame_queues[i*2+1]\<close> (empty) of camera
  \<open>i\<close> start with empty records: the records count from the entry of the loop, so the
  32 slots per camera that lines 123 to 128 put into the empty queues before the workers
  start are not in them.
\<close>

definition init_sync :: "nat \<Rightarrow> sync_state" where
  "init_sync cam_count =
     \<lparr>frame_queues = replicate (cam_count * 2) \<lparr>polled = 0, enqueued = []\<rparr>,
      current_frames = replicate cam_count None,
      complete_sets = 0,
      log_lines = []\<rparr>"

text \<open>
  Lines 166 to 177, one turn of the \<open>for\<close> loop: a slot that is already set is skipped;
  otherwise the filled queue of the camera is polled, and a \<open>NULL\<close> result clears
  \<open>full_set\<close>.
\<close>

definition fill_slot :: "feed \<Rightarrow> nat \<Rightarrow> sync_state \<times> bool \<Rightarrow> sync_state \<times> bool" where
  "fill_slot fd i = (\<lambda>(s, full_set).
     if current_frames s ! i \<noteq> None then (s, full_set)
     else (case lf_queue_dq fd (i * 2) s of (r, s') \<Rightarrow>
       let s'' = s'\<lparr>current_frames := (current_frames s')[i := r]\<rparr>
       in if r = None then (s'', False) else (s'', full_set)))"

definition fill_slots :: "feed \<Rightarrow> nat \<Rightarrow> sync_state \<Rightarrow> sync_state \<times> bool" where
  "fill_slots fd cam_count s = fold (fill_slot fd) [0..<cam_count] (s, True)"

text \<open>
  Lines 183 to 187: the maximum starts at 0 and is raised by every larger timestamp.
  \<open>current_frames[i]->timestamp\<close> dereferences the slot; a \<open>NULL\<close> slot is a fault.
\<close>

definition max_step :: "sync_state \<Rightarrow> nat \<Rightarrow> error + 64 word \<Rightarrow> error + 64 word" where
  "max_step s i acc =
     (case acc of Inl e \<Rightarrow> Inl e
      | Inr max_timestamp \<Rightarrow>
          (case current_frames s ! i of None \<Rightarrow> Inl NullDeref
           | Some b \<Rightarrow> Inr (if timestamp b > max_timestamp then timestamp b
                            else max_timestamp)))"

definition find_max :: "nat \<Rightarrow> sync_state \<Rightarrow> error + 64 word" where
  "find_max cam_count s = fold (max_step s) [0..<cam_count] (Inr 0)"

text \<open>
  Lines 190 to 197: a slot whose timestamp differs from the maximum is passed to the
  empty queue of its camera and cleared, and \<open>all_equal\<close> becomes false.
\<close>

definition align_step ::
  "64 word \<Rightarrow> nat \<Rightarrow> error + sync_state \<times> bool \<Rightarrow> error + sync_state \<times> bool" where
  "align_step max_timestamp i acc =
     (case acc of Inl e \<Rightarrow> Inl e
      | Inr (s, all_equal) \<Rightarrow>
          (case current_frames s ! i of None \<Rightarrow> Inl NullDeref
           | Some b \<Rightarrow>
               if timestamp b \<noteq> max_timestamp
               then (let s' = lf_queue_nq (i * 2 + 1) (current_frames s ! i) s
                     in Inr (s'\<lparr>current_frames := (current_frames s')[i := None]\<rparr>, False))
               else Inr (s, all_equal)))"

definition align :: "nat \<Rightarrow> 64 word \<Rightarrow> sync_state \<Rightarrow> error + sync_state \<times> bool" where
  "align cam_count max_timestamp s =
     fold (align_step max_timestamp) [0..<cam_count] (Inr (s, True))"

text \<open>Lines 212 to 215: every slot is handed to its empty queue and cleared.\<close>

definition release_step :: "nat \<Rightarrow> sync_state \<Rightarrow> sync_state" where
  "release_step i s =
     (let s' = lf_queue_nq (i * 2 + 1) (current_frames s ! i) s
      in s'\<lparr>current_frames := (current_frames s')[i := None]\<rparr>)"

definition release :: "nat \<Rightarrow> sync_state \<Rightarrow> sync_state" where
  "release cam_count s = fold release_step [0..<cam_count] s"

text \<open>
  Lines 202 to 217, reached with a full set whose timestamps all equal the maximum: the
  set number and the timestamp are logged, the slots are released and the counter is
  incremented.
\<close>

definition emit :: "nat \<Rightarrow> 64 word \<Rightarrow> sync_state \<Rightarrow> sync_state" where
  "emit cam_count max_timestamp s =
     (let s1 = s\<lparr>log_lines := log_lines s @ [(complete_sets s, max_timestamp)]\<rparr>;
          s2 = release cam_count s1
      in s2\<lparr>complete_sets := complete_sets s2 + 1\<rparr>)"

text \<open>
  Lines 165 to 217, the body of the \<open>while\<close> loop. The two \<open>continue\<close> statements
  end the pass early: when a slot is still empty, and when a slot was recycled.
\<close>

definition loop_body :: "feed \<Rightarrow> nat \<Rightarrow> sync_state \<Rightarrow> error + sync_state" where
  "loop_body fd cam_count s =
     (case fill_slots fd cam_count s of (s1, full_set) \<Rightarrow>
        if \<not> full_set then Inr s1
        else (case find_max cam_count s1 of Inl e \<Rightarrow> Inl e
          | Inr max_timestamp \<Rightarrow>
              (case align cam_count max_timestamp s1 of Inl e \<Rightarrow> Inl e
               | Inr (s2, all_equal) \<Rightarrow>
                   if \<not> all_equal then Inr s2
                   else Inr (emit cam_count max_timestamp s2))))"

text \<open>
  Line 164, \<open>while (complete_sets < 100)\<close>. The loop spins for as long as no aligned set
  forms, so it is run on fuel: \<open>None\<close> means the fuel was used up with the loop still
  running, \<open>Some (Inl e)\<close> a fault, \<open>Some (Inr s)\<close> the state at loop exit.
\<close>

fun sync_loop :: "nat \<Rightarrow> feed \<Rightarrow> nat \<Rightarrow> sync_state \<Rightarrow> (error + sync_state) option" where
  "sync_loop 0 fd cam_count s = (if complete_sets s < 100 then None else Some (Inr s))"
| "sync_loop (Suc n) fd cam_count s =
     (if complete_sets s < 100
      then (case loop_body fd cam_count s of Inl e \<Rightarrow> Some (Inl e)
            | Inr s' \<Rightarrow> sync_loop n fd cam_count s')
      else Some (Inr s))"

text \<open>
  The state after at most \<open>n\<close> passes of the loop (fewer when the loop has exited), for
  looking at what a run that is still going has logged so far.
\<close>

fun passes :: "nat \<Rightarrow> feed \<Rightarrow> nat \<Rightarrow> sync_state \<Rightarrow> error + sync_state" where
  "passes 0 fd cam_count s = Inr s"
| "passes (Suc n) fd cam_count s =
     (if complete_sets s < 100
      then (case loop_body fd cam_count s of Inl e \<Rightarrow> Inl e
            | Inr s' \<Rightarrow> passes n fd cam_count s')
      else Inr s)"

section \<open>Startup and shutdown\<close>

text \<open>
  Lines 89 to 103. \<open>frame_bufs_count\<close> is \<open>cam_count * FRAME_BUFS_PER_THREAD\<close>; the loop
  stores in slot \<open>i\<close> the address \<open>frame_bufs + i * frame_buf_size\<close>, computed on
  64 bits. \<open>frame_buf_size\<close> is computed from \<open>DECODED_FRAME_WIDTH\<close> and
  \<open>DECODED_FRAME_HEIGHT\<close>, which \<open>stream_mgr.h\<close> defines and the sources do not
  include, so its value is a parameter. The counter \<open>uint i\<close> has 32 bits and
  \<open>frame_bufs_count\<close> comes from an \<open>int\<close> product, so the counter does not wrap.
\<close>

definition frame_bufs_count :: "nat \<Rightarrow> nat" where
  "frame_bufs_count cam_count = cam_count * FRAME_BUFS_PER_THREAD"

definition set_frame_buf :: "64 word \<Rightarrow> 64 word \<Rightarrow> nat \<Rightarrow> ts_frame_buf list \<Rightarrow> ts_frame_buf list" where
  "set_frame_buf frame_bufs frame_buf_size i ts_frame_bufs =
     (let offset = of_nat i * frame_buf_size
      in ts_frame_bufs[i := (ts_frame_bufs ! i)\<lparr>frame_buf := frame_bufs + offset\<rparr>])"

definition init_frame_bufs ::
  "64 word \<Rightarrow> 64 word \<Rightarrow> nat \<Rightarrow> ts_frame_buf list \<Rightarrow> ts_frame_buf list" where
  "init_frame_bufs frame_bufs frame_buf_size cam_count ts_frame_bufs =
     fold (set_frame_buf frame_bufs frame_buf_size) [0..<frame_bufs_count cam_count] ts_frame_bufs"

text \<open>
  The pixel region of a slot, as the set of byte offsets from the start of the allocation
  that it covers.
\<close>

definition region :: "64 word \<Rightarrow> 64 word \<Rightarrow> ts_frame_buf \<Rightarrow> nat set" where
  "region frame_bufs frame_buf_size b =
     {unat (frame_buf b - frame_bufs) ..< unat (frame_buf b - frame_bufs) + unat frame_buf_size}"

text \<open>
  Lines 154 to 157. \<open>tv_sec\<close> and \<open>tv_nsec\<close> are signed 64-bit values; multiplying by
  \<open>1000000000ULL\<close> converts to unsigned 64 bits, which keeps the bit pattern, so the
  fields are kept as 64-bit words. The message is the 8 bytes of the \<open>uint64_t\<close> in the
  order of the host, least significant byte first.
\<close>

record timespec =
  tv_sec :: "64 word"
  tv_nsec :: "64 word"

definition start_timestamp :: "timespec \<Rightarrow> 64 word" where
  "start_timestamp ts = (tv_sec ts + word_of_int TIMESTAMP_DELAY) * 1000000000 + tv_nsec ts"

definition bytes_of_u64 :: "64 word \<Rightarrow> 8 word list" where
  "bytes_of_u64 w = map (\<lambda>k. ucast (drop_bit (8 * k) w)) [0..<8]"

definition u64_of_bytes :: "8 word list \<Rightarrow> 64 word" where
  "u64_of_bytes bs = foldr (\<lambda>b acc. ucast b OR push_bit 8 acc) bs 0"

definition now_ns :: "timespec \<Rightarrow> 64 word" where
  "now_ns ts = tv_sec ts * 1000000000 + tv_nsec ts"

text \<open>
  Lines 220 and 221: the literal \<open>"STOP"\<close> with its terminating zero byte; \<open>strlen\<close>
  counts the bytes before the first zero, and that many bytes are sent.
\<close>

definition stop_msg :: "8 word list" where
  "stop_msg = [0x53, 0x54, 0x4F, 0x50, 0]"

definition strlen :: "8 word list \<Rightarrow> nat" where
  "strlen cs = length (takeWhile (\<lambda>c. c \<noteq> 0) cs)"

text \<open>
  What \<open>main\<close> does to the world outside, in order: a worker spawned, a message handed
  to \<open>broadcast_msg\<close> for all cameras, a worker joined, the pixel allocation freed, the
  log closed.
\<close>

datatype event =
    Spawn nat
  | Broadcast "8 word list"
  | Join nat
  | FreeFrameBufs
  | CleanupLogging

datatype outcome = Exit int | Fault error

text \<open>
  The results of the calls \<open>main\<close> makes into the system and into the parts of the
  program that are not among the sources (\<open>setup_logging\<close>, \<open>count_cameras\<close>,
  \<open>parse_conf\<close>), and the value of \<open>errno\<close> where it is read.
\<close>

record sys_calls =
  setup_logging_ret :: int
  errno_setup_logging :: int
  count_cameras_ret :: int
  parse_conf_ret :: int
  sched_setaffinity_ret :: int
  errno_sched_setaffinity :: int
  malloc_ret :: "64 word"
  pthread_create_ret :: "nat \<Rightarrow> int"
  clock_gettime_ts :: timespec
  dq_feed :: feed

definition ENOMEM :: int where
  "ENOMEM = 12"

text \<open>
  Lines 133 to 152: the workers are spawned in order; the first failing
  \<open>pthread_create\<close> frees the allocation, closes the log and returns its result.
\<close>

fun spawn_workers :: "(nat \<Rightarrow> int) \<Rightarrow> nat list \<Rightarrow> event list \<Rightarrow> int \<times> event list + event list" where
  "spawn_workers create [] evs = Inr evs"
| "spawn_workers create (i # rest) evs =
     (let ret = create i
      in if ret \<noteq> 0 then Inl (ret, evs @ [FreeFrameBufs, CleanupLogging])
         else spawn_workers create rest (evs @ [Spawn i]))"

text \<open>
  \<open>main\<close>, lines 22 to 230. The result is the exit code (or the fault) and the events in
  order; \<open>None\<close> when the synchronizer loop is still running after \<open>fuel\<close> passes.
  After a successful spawn loop \<open>ret\<close> is 0, which is what line 229 returns.
\<close>

definition main :: "nat \<Rightarrow> sys_calls \<Rightarrow> (outcome \<times> event list) option" where
  "main fuel e =
     (if setup_logging_ret e \<noteq> 0 then Some (Exit (- errno_setup_logging e), [])
      else let cam_count = count_cameras_ret e in
      if cam_count \<le> 0 then Some (Exit cam_count, [CleanupLogging])
      else if parse_conf_ret e \<noteq> 0 then Some (Exit (parse_conf_ret e), [CleanupLogging])
      else if sched_setaffinity_ret e = - 1
        then Some (Exit (- errno_sched_setaffinity e), [CleanupLogging])
      else if malloc_ret e = 0 then Some (Exit (- ENOMEM), [CleanupLogging])
      else (case spawn_workers (pthread_create_ret e) [0..<nat cam_count] [] of
          Inl (ret, evs) \<Rightarrow> Some (Exit ret, evs)
        | Inr evs \<Rightarrow>
            (let evs1 = evs @ [Broadcast (bytes_of_u64 (start_timestamp (clock_gettime_ts e)))]
             in case sync_loop fuel (dq_feed e) (nat cam_count) (init_sync (nat cam_count)) of
                 None \<Rightarrow> None
               | Some (Inl err) \<Rightarrow> Some (Fault err, evs1)
               | Some (Inr s) \<Rightarrow>
                   Some (Exit 0,
                     evs1 @ [Broadcast (take (strlen stop_msg) stop_msg)]
                       @ map Join [0..<nat cam_count] @ [FreeFrameBufs, CleanupLogging]))))"

section \<open>Closed forms of the loops\<close>

text \<open>
  What each \<open>for\<close> loop has done to the slots and to the queues after its first \<open>n\<close>
  turns, written without recursion.
\<close>

definition fill_cur :: "feed \<Rightarrow> nat \<Rightarrow> sync_state \<Rightarrow> handle list" where
  "fill_cur fd n s =
     map (\<lambda>i. if i < n \<and> current_frames s ! i = None
              then fd (i * 2) (polled (frame_queues s ! (i * 2)))
              else current_frames s ! i) [0..<length (current_frames s)]"

definition fill_fq :: "nat \<Rightarrow> sync_state \<Rightarrow> lf_queue list" where
  "fill_fq n s =
     map (\<lambda>q. if even q \<and> q div 2 < n \<and> current_frames s ! (q div 2) = None
              then (frame_queues s ! q)\<lparr>polled := Suc (polled (frame_queues s ! q))\<rparr>
              else frame_queues s ! q) [0..<length (frame_queues s)]"

definition filled :: "feed \<Rightarrow> nat \<Rightarrow> sync_state \<Rightarrow> sync_state" where
  "filled fd n s = s\<lparr>frame_queues := fill_fq n s, current_frames := fill_cur fd n s\<rparr>"

definition align_cur :: "64 word \<Rightarrow> nat \<Rightarrow> sync_state \<Rightarrow> handle list" where
  "align_cur m n s =
     map (\<lambda>i. if i < n \<and> timestamp (the (current_frames s ! i)) \<noteq> m then None
              else current_frames s ! i) [0..<length (current_frames s)]"

definition align_fq :: "64 word \<Rightarrow> nat \<Rightarrow> sync_state \<Rightarrow> lf_queue list" where
  "align_fq m n s =
     map (\<lambda>q. if odd q \<and> q div 2 < n \<and> timestamp (the (current_frames s ! (q div 2))) \<noteq> m
              then (frame_queues s ! q)
                     \<lparr>enqueued := enqueued (frame_queues s ! q) @ [current_frames s ! (q div 2)]\<rparr>
              else frame_queues s ! q) [0..<length (frame_queues s)]"

definition recycled :: "64 word \<Rightarrow> nat \<Rightarrow> sync_state \<Rightarrow> sync_state" where
  "recycled m n s = s\<lparr>frame_queues := align_fq m n s, current_frames := align_cur m n s\<rparr>"

definition release_cur :: "nat \<Rightarrow> sync_state \<Rightarrow> handle list" where
  "release_cur n s =
     map (\<lambda>i. if i < n then None else current_frames s ! i) [0..<length (current_frames s)]"

definition release_fq :: "nat \<Rightarrow> sync_state \<Rightarrow> lf_queue list" where
  "release_fq n s =
     map (\<lambda>q. if odd q \<and> q div 2 < n
              then (frame_queues s ! q)
                     \<lparr>enqueued := enqueued (frame_queues s ! q) @ [current_frames s ! (q div 2)]\<rparr>
              else frame_queues s ! q) [0..<length (frame_queues s)]"

text \<open>The arrays have the sizes \<open>main\<close> declares them with.\<close>

definition wf_sync :: "nat \<Rightarrow> sync_state \<Rightarrow> bool" where
  "wf_sync cam_count s \<longleftrightarrow>
     length (current_frames s) = cam_count \<and> length (frame_queues s) = 2 * cam_count"

text \<open>A full slot set: no slot of the \<open>cam_count\<close> cameras is \<open>NULL\<close>.\<close>

definition full_slots :: "nat \<Rightarrow> sync_state \<Rightarrow> bool" where
  "full_slots cam_count s \<longleftrightarrow> (\<forall>i<cam_count. current_frames s ! i \<noteq> None)"

section \<open>Invariants of the loop\<close>

text \<open>
  Every filled queue yields frames with strictly increasing timestamps: of two frames
  returned by polls of the same filled queue, the later one has the larger timestamp.
\<close>

definition increasing_feed :: "nat \<Rightarrow> feed \<Rightarrow> bool" where
  "increasing_feed cam_count fd \<longleftrightarrow>
     (\<forall>i<cam_count. \<forall>k k' a b. k < k' \<longrightarrow> fd (i * 2) k = Some a \<longrightarrow> fd (i * 2) k' = Some b
        \<longrightarrow> timestamp a < timestamp b)"

text \<open>
  What holds between the passes when the feed is increasing: a held frame came from an
  earlier poll of its camera's filled queue; every logged timestamp is smaller than the
  timestamp of every held frame and of every frame still to come; the logged timestamps
  increase.
\<close>

definition mono_inv :: "feed \<Rightarrow> nat \<Rightarrow> sync_state \<Rightarrow> bool" where
  "mono_inv fd cam_count s \<longleftrightarrow>
     wf_sync cam_count s \<and>
     (\<forall>i<cam_count. \<forall>b. current_frames s ! i = Some b \<longrightarrow>
        (\<exists>k<polled (frame_queues s ! (i * 2)). fd (i * 2) k = Some b)) \<and>
     (\<forall>t\<in>set (map snd (log_lines s)). \<forall>i<cam_count.
        (\<forall>b. current_frames s ! i = Some b \<longrightarrow> t < timestamp b) \<and>
        (\<forall>k b. polled (frame_queues s ! (i * 2)) \<le> k \<longrightarrow> fd (i * 2) k = Some b
           \<longrightarrow> t < timestamp b)) \<and>
     sorted_wrt (<) (map snd (log_lines s))"

text \<open>
  The cameras are in lockstep on the grid \<open>grid\<close>: every poll of every filled queue
  returns a frame, and the \<open>k\<close>-th frame of every camera carries the timestamp \<open>grid k\<close>.
\<close>

definition in_lockstep :: "nat \<Rightarrow> feed \<Rightarrow> (nat \<Rightarrow> 64 word) \<Rightarrow> bool" where
  "in_lockstep cam_count fd grid \<longleftrightarrow>
     (\<forall>i<cam_count. \<forall>k. \<exists>b. fd (i * 2) k = Some b \<and> timestamp b = grid k)"

text \<open>
  The counter and the log move together, the counter never passes 100, and when it is
  100 every slot is \<open>NULL\<close>.
\<close>

definition count_inv :: "nat \<Rightarrow> sync_state \<Rightarrow> bool" where
  "count_inv cam_count s \<longleftrightarrow>
     wf_sync cam_count s \<and> unat (complete_sets s) = length (log_lines s) \<and>
     length (log_lines s) \<le> 100 \<and>
     (complete_sets s = 100 \<longrightarrow> (\<forall>i<cam_count. current_frames s ! i = None))"

text \<open>
  Between the passes of a run in lockstep: \<open>k\<close> sets have been emitted, every slot is
  \<open>NULL\<close> and every filled queue has been polled \<open>k\<close> times.
\<close>

definition lock_inv :: "nat \<Rightarrow> nat \<Rightarrow> sync_state \<Rightarrow> bool" where
  "lock_inv cam_count k s \<longleftrightarrow>
     wf_sync cam_count s \<and> complete_sets s = of_nat k \<and>
     (\<forall>i<cam_count. current_frames s ! i = None \<and> polled (frame_queues s ! (i * 2)) = k)"

text \<open>
  The environment of a successful startup for \<open>cam_count\<close> cameras: every call before
  the synchronizer loop succeeds.
\<close>

definition startup_ok :: "nat \<Rightarrow> sys_calls \<Rightarrow> bool" where
  "startup_ok cam_count e \<longleftrightarrow>
     setup_logging_ret e = 0 \<and> count_cameras_ret e = int cam_count \<and> 0 < cam_count \<and>
     parse_conf_ret e = 0 \<and> sched_setaffinity_ret e \<noteq> - 1 \<and> malloc_ret e \<noteq> 0 \<and>
     (\<forall>i<cam_count. pthread_create_ret e i = 0)"

text \<open>
  The timestamp \<open>t\<close> is common to all cameras: the filled queue of every camera yields,
  at some poll, a frame stamped \<open>t\<close>.
\<close>

definition yields :: "nat \<Rightarrow> feed \<Rightarrow> 64 word \<Rightarrow> bool" where
  "yields cam_count fd t \<longleftrightarrow>
     (\<forall>i<cam_count. \<exists>k b. fd (i * 2) k = Some b \<and> timestamp b = t)"

text \<open>
  What keeps the loop from losing a common timestamp: a held frame is the result of the
  latest poll of its queue, and for a common timestamp that has not been logged every
  camera either still has its frame to come or holds it now.
\<close>

definition live_inv :: "feed \<Rightarrow> nat \<Rightarrow> 64 word set \<Rightarrow> sync_state \<Rightarrow> bool" where
  "live_inv fd cam_count common s \<longleftrightarrow>
     wf_sync cam_count s \<and>
     (\<forall>i<cam_count. \<forall>b. current_frames s ! i = Some b \<longrightarrow>
        0 < polled (frame_queues s ! (i * 2)) \<and>
        fd (i * 2) (polled (frame_queues s ! (i * 2)) - 1) = Some b) \<and>
     (\<forall>t\<in>common. t \<in> snd ` set (log_lines s) \<or>
        (\<forall>i<cam_count. \<forall>k b. fd (i * 2) k = Some b \<longrightarrow> timestamp b = t \<longrightarrow>
           polled (frame_queues s ! (i * 2)) \<le> k \<or>
           (current_frames s ! i = Some b \<and> polled (frame_queues s ! (i * 2)) = Suc k)))"

text \<open>How often the filled queues have been polled, all cameras together.\<close>

definition polls :: "nat \<Rightarrow> sync_state \<Rightarrow> nat" where
  "polls cam_count s = (\<Sum>i<cam_count. polled (frame_queues s ! (i * 2)))"

text \<open>
  The handles a filled queue has yielded in its first \<open>n\<close> polls, in order, and the
  conservation of buffers by the synchronizer: what the filled queue of a camera has
  yielded so far is what has been handed to the empty queue of that camera, in the same
  order, followed by the frame the slot holds, if it holds one.
\<close>

definition taken :: "feed \<Rightarrow> nat \<Rightarrow> nat \<Rightarrow> handle list" where
  "taken fd q n = filter (\<lambda>h. h \<noteq> None) (map (fd q) [0..<n])"

definition conserved :: "feed \<Rightarrow> nat \<Rightarrow> sync_state \<Rightarrow> bool" where
  "conserved fd cam_count s \<longleftrightarrow>
     wf_sync cam_count s \<and>
     (\<forall>i<cam_count.
        taken fd (i * 2) (polled (frame_queues s ! (i * 2))) =
          enqueued (frame_queues s ! (i * 2 + 1)) @
          filter (\<lambda>h. h \<noteq> None) [current_frames s ! i])"

section \<open>Concrete runs\<close>

text \<open>
  Feeds and states used to run the definitions on concrete inputs. \<open>list_feed\<close> hands
  out the frames of a list in order and then finds the queue empty. In \<open>lockstep_feed\<close>
  every poll of every filled queue returns a frame, and the \<open>k\<close>-th frames of all cameras
  carry the same timestamp.
\<close>

definition list_feed :: "(nat \<Rightarrow> ts_frame_buf list) \<Rightarrow> feed" where
  "list_feed frames q k = (if k < length (frames q) then Some (frames q ! k) else None)"

definition lockstep_feed :: feed where
  "lockstep_feed q k =
     Some \<lparr>timestamp = of_nat k * 100 + 100,
           frame_buf = of_nat ((q div 2) * FRAME_BUFS_PER_THREAD + k mod FRAME_BUFS_PER_THREAD) * 4096\<rparr>"

text \<open>
  Two cameras whose first frames are one grid tick apart: the slots after the first fill
  of the scenario with inputs 100, 200, ... and 200, 300, ...
\<close>

definition lagging_pair :: sync_state where
  "lagging_pair =
     \<lparr>frame_queues = [\<lparr>polled = 1, enqueued = []\<rparr>, \<lparr>polled = 0, enqueued = []\<rparr>,
                       \<lparr>polled = 1, enqueued = []\<rparr>, \<lparr>polled = 0, enqueued = []\<rparr>],
      current_frames = [Some \<lparr>timestamp = 100, frame_buf = 0\<rparr>,
                        Some \<lparr>timestamp = 200, frame_buf = 131072\<rparr>],
      complete_sets = 0, log_lines = []\<rparr>"

text \<open>
  Scenario S2 of the spec, two cameras with a lag of one frame: the filled queue of camera
  0 yields frames with the timestamps 100, 200, 300, 400, the filled queue of camera 1
  frames with 200, 300, 400, and then both are found empty. \<open>s2_final n\<close> is the state
  the loop is in after \<open>n \<ge> 4\<close> passes: it keeps polling the two empty filled queues.
\<close>

definition s2_frames :: "nat \<Rightarrow> ts_frame_buf list" where
  "s2_frames q =
     (if q = 0 then [\<lparr>timestamp = 100, frame_buf = 0\<rparr>, \<lparr>timestamp = 200, frame_buf = 4096\<rparr>,
                     \<lparr>timestamp = 300, frame_buf = 8192\<rparr>, \<lparr>timestamp = 400, frame_buf = 12288\<rparr>]
      else if q = 2 then [\<lparr>timestamp = 200, frame_buf = 131072\<rparr>,
                     \<lparr>timestamp = 300, frame_buf = 135168\<rparr>,
                     \<lparr>timestamp = 400, frame_buf = 139264\<rparr>]
      else [])"

definition s2_final :: "nat \<Rightarrow> sync_state" where
  "s2_final n =
     \<lparr>frame_queues =
        [\<lparr>polled = n, enqueued = []\<rparr>,
         \<lparr>polled = 0,
            enqueued = [Some \<lparr>timestamp = 100, frame_buf = 0\<rparr>,
                        Some \<lparr>timestamp = 200, frame_buf = 4096\<rparr>,
                        Some \<lparr>timestamp = 300, frame_buf = 8192\<rparr>,
                        Some \<lparr>timestamp = 400, frame_buf = 12288\<rparr>]\<rparr>,
         \<lparr>polled = n - 1, enqueued = []\<rparr>,
         \<lparr>polled = 0,
            enqueued = [Some \<lparr>timestamp = 200, frame_buf = 131072\<rparr>,
                        Some \<lparr>timestamp = 300, frame_buf = 135168\<rparr>,
                        Some \<lparr>timestamp = 400, frame_buf = 139264\<rparr>]\<rparr>],
      current_frames = [None, None], complete_sets = 3,
      log_lines = [(0, 200), (1, 300), (2, 400)]\<rparr>"

text \<open>
  Two cameras that never agree: every poll returns a frame, camera 0 stamps its frames
  with odd numbers and camera 1 with even ones. \<open>spin_inv\<close> is what holds between the
  passes of the loop on this feed.
\<close>

definition never_aligned_feed :: feed where
  "never_aligned_feed q k =
     Some \<lparr>timestamp = 2 * of_nat k + (if q = 0 then 1 else 2),
           frame_buf = of_nat ((q div 2) * FRAME_BUFS_PER_THREAD + k mod FRAME_BUFS_PER_THREAD) * 4096\<rparr>"

definition spin_inv :: "sync_state \<Rightarrow> bool" where
  "spin_inv s \<longleftrightarrow>
     wf_sync 2 s \<and> complete_sets s = 0 \<and>
     (\<forall>b. current_frames s ! 0 = Some b \<longrightarrow> odd (timestamp b)) \<and>
     (\<forall>b. current_frames s ! 1 = Some b \<longrightarrow> even (timestamp b))"

text \<open>
  Environments of \<open>main\<close>: a startup in which every call succeeds, for two cameras in
  lockstep; the same with a configuration that lists no camera; the same with
  \<open>sched_setaffinity\<close> failing with \<open>EINVAL\<close> (22); the same with \<open>pthread_create\<close>
  failing with \<open>EAGAIN\<close> (11) for the second worker.
\<close>

definition demo_env :: sys_calls where
  "demo_env =
     \<lparr>setup_logging_ret = 0, errno_setup_logging = 0, count_cameras_ret = 2,
      parse_conf_ret = 0, sched_setaffinity_ret = 0, errno_sched_setaffinity = 0,
      malloc_ret = 0x7F0000000000, pthread_create_ret = (\<lambda>i. 0),
      clock_gettime_ts = \<lparr>tv_sec = 1700000000, tv_nsec = 123456789\<rparr>,
      dq_feed = lockstep_feed\<rparr>"

definition zero_cameras_env :: sys_calls where
  "zero_cameras_env = demo_env\<lparr>count_cameras_ret := 0\<rparr>"

definition affinity_fail_env :: sys_calls where
  "affinity_fail_env = demo_env\<lparr>sched_setaffinity_ret := - 1, errno_sched_setaffinity := 22\<rparr>"

definition spawn_fail_env :: sys_calls where
  "spawn_fail_env = demo_env\<lparr>pthread_create_ret := (\<lambda>i. if i = 1 then 11 else 0)\<rparr>"

text \<open>An array of \<open>n\<close> slots before line 100 has written to it.\<close>

definition blank_bufs :: "nat \<Rightarrow> ts_frame_buf list" where
  "blank_bufs n = replicate n \<lparr>timestamp = 0, frame_buf = 0\<rparr>"

text \<open>
  One hundred grid ticks: the filled queue of every camera yields 100 frames stamped
  100, 200, ..., 10000 and is then found empty.
\<close>

definition grid_frames :: "nat \<Rightarrow> ts_frame_buf list" where
  "grid_frames q =
     map (\<lambda>k. \<lparr>timestamp = of_nat (100 * k + 100),
                frame_buf = of_nat ((q div 2) * FRAME_BUFS_PER_THREAD + k mod FRAME_BUFS_PER_THREAD) * 4096\<rparr>)
       [0..<100]"

definition grid_env :: sys_calls where
  "grid_env = demo_env\<lparr>dq_feed := list_feed grid_frames\<rparr>"

section \<open>Arrival schedules\<close>

text \<open>
  The filled queue \<open>q\<close> yields the frames of the list \<open>frames\<close>, in this order, and no
  other: after any number of polls the handles obtained so far are the first frames of
  the list, and after enough polls they are all of them. The polls that find the queue
  empty may come before, between and after the frames.
\<close>

definition delivers :: "feed \<Rightarrow> nat \<Rightarrow> ts_frame_buf list \<Rightarrow> bool" where
  "delivers fd q frames \<longleftrightarrow>
     (\<forall>n. \<exists>k. taken fd q n = map Some (take k frames)) \<and>
     (\<exists>n. taken fd q n = map Some frames)"

text \<open>
  \<open>spaced_feed\<close> hands out the frames of a list like \<open>list_feed\<close>, but every other poll
  finds the queue empty: the frame \<open>k\<close> is the result of the poll \<open>2 * k + 1\<close>.
\<close>

definition spaced_feed :: "(nat \<Rightarrow> ts_frame_buf list) \<Rightarrow> feed" where
  "spaced_feed frames q k = (if even k then None else list_feed frames q (k div 2))"

text \<open>
  What the log holds between the passes: the set numbers are 0, 1, 2, ... and
  \<open>complete_sets\<close> is their count; the main thread has enqueued nothing to a filled
  queue; a logged timestamp is common to all cameras, and every poll that returns a frame
  with this timestamp has been made.
\<close>

definition logged_inv :: "feed \<Rightarrow> nat \<Rightarrow> sync_state \<Rightarrow> bool" where
  "logged_inv fd cam_count s \<longleftrightarrow>
     wf_sync cam_count s \<and>
     complete_sets s = of_nat (length (log_lines s)) \<and>
     map fst (log_lines s) = map of_nat [0..<length (log_lines s)] \<and>
     (\<forall>i<cam_count. enqueued (frame_queues s ! (i * 2)) = []) \<and>
     (\<forall>t\<in>snd ` set (log_lines s). yields cam_count fd t \<and>
        (\<forall>i<cam_count. \<forall>k b. fd (i * 2) k = Some b \<longrightarrow> timestamp b = t \<longrightarrow>
           k < polled (frame_queues s ! (i * 2))))"

section \<open>Loop lemmas\<close>

lemma fill_fold:
  assumes "n \<le> length (current_frames s)" "length (frame_queues s) = 2 * length (current_frames s)"
  shows "fold (fill_slot fd) [0..<n] (s, b) =
     (s\<lparr>frame_queues := fill_fq n s, current_frames := fill_cur fd n s\<rparr>,
      b \<and> (\<forall>i<n. fill_cur fd n s ! i \<noteq> None))"
  using assms
proof (induction n)
  case 0
  show ?case by (simp add: fill_fq_def fill_cur_def map_nth)
next
  case (Suc n)
  let ?s = "s\<lparr>frame_queues := fill_fq n s, current_frames := fill_cur fd n s\<rparr>"
  have n: "n < length (current_frames s)" "n * 2 < length (frame_queues s)" using Suc.prems by auto
  have curn: "current_frames ?s ! n = current_frames s ! n"
    using n by (simp add: fill_cur_def)
  have fqn: "frame_queues ?s ! (n * 2) = frame_queues s ! (n * 2)"
    using n by (simp add: fill_fq_def)
  have c1: "(fill_cur fd n s)[n := fd (n*2) (polled (frame_queues s ! (n * 2)))] = fill_cur fd (Suc n) s"
    if "current_frames s ! n = None"
    using that n by (intro nth_equalityI) (auto simp add: fill_cur_def nth_list_update less_Suc_eq)
  have c2: "fill_cur fd n s = fill_cur fd (Suc n) s" if "current_frames s ! n \<noteq> None"
    using that n by (intro nth_equalityI) (auto simp add: fill_cur_def less_Suc_eq)
  have q1: "(fill_fq n s)[n * 2 := (frame_queues s ! (n * 2))\<lparr>polled := Suc (polled (frame_queues s ! (n * 2)))\<rparr>] = fill_fq (Suc n) s"
    if "current_frames s ! n = None"
    using that n by (intro nth_equalityI) (auto simp add: fill_fq_def nth_list_update less_Suc_eq)
  have q2: "fill_fq n s = fill_fq (Suc n) s" if "current_frames s ! n \<noteq> None"
    using that n by (intro nth_equalityI) (auto simp add: fill_fq_def less_Suc_eq)
  have nth_same: "\<forall>i<n. fill_cur fd (Suc n) s ! i = fill_cur fd n s ! i"
    using n by (simp add: fill_cur_def)
  have nthn: "fill_cur fd (Suc n) s ! n = (if current_frames s ! n = None then fd (n*2) (polled (frame_queues s ! (n * 2))) else current_frames s ! n)"
    using n by (simp add: fill_cur_def)
  have "fold (fill_slot fd) [0..<Suc n] (s, b) = fill_slot fd n (fold (fill_slot fd) [0..<n] (s, b))"
    by simp
  also have "\<dots> = fill_slot fd n (?s, b \<and> (\<forall>i<n. fill_cur fd n s ! i \<noteq> None))"
    using Suc by simp
  also have "\<dots> = (s\<lparr>frame_queues := fill_fq (Suc n) s, current_frames := fill_cur fd (Suc n) s\<rparr>,
      b \<and> (\<forall>i<Suc n. fill_cur fd (Suc n) s ! i \<noteq> None))"
  proof (cases "current_frames s ! n = None")
    case True
    show ?thesis
      using True curn fqn c1[OF True] q1[OF True] nth_same nthn
      by (auto simp: fill_slot_def lf_queue_dq_def Let_def less_Suc_eq)
  next
    case False
    show ?thesis
      using False curn c2[OF False] q2[OF False] nth_same nthn
      by (auto simp: fill_slot_def less_Suc_eq)
  qed
  finally show ?case .
qed

lemma find_max_fold:
  assumes "\<forall>i<n. current_frames s ! i \<noteq> None"
  shows "\<exists>m. fold (max_step s) [0..<n] (Inr m0) = Inr m \<and> m0 \<le> m
           \<and> (\<forall>i<n. timestamp (the (current_frames s ! i)) \<le> m)
           \<and> (m = m0 \<or> (\<exists>i<n. timestamp (the (current_frames s ! i)) = m))"
  using assms
proof (induction n)
  case 0
  show ?case by simp
next
  case (Suc n)
  then obtain m where m: "fold (max_step s) [0..<n] (Inr m0) = Inr m" "m0 \<le> m"
     "\<forall>i<n. timestamp (the (current_frames s ! i)) \<le> m"
     "m = m0 \<or> (\<exists>i<n. timestamp (the (current_frames s ! i)) = m)"
    by auto
  from Suc.prems obtain b where b: "current_frames s ! n = Some b" by auto
  let ?m = "if timestamp b > m then timestamp b else m"
  have "fold (max_step s) [0..<Suc n] (Inr m0) = Inr ?m"
    using m(1) b by (simp add: max_step_def)
  moreover have "m0 \<le> ?m" using m(2) by auto
  moreover have "\<forall>i<Suc n. timestamp (the (current_frames s ! i)) \<le> ?m"
    using m(3) b by (auto simp: less_Suc_eq)
  moreover have "?m = m0 \<or> (\<exists>i<Suc n. timestamp (the (current_frames s ! i)) = ?m)"
    using m(4) b by (auto simp: less_Suc_eq)
  ultimately show ?case by blast
qed

lemma align_fold:
  assumes "n \<le> length (current_frames s)"
    "length (frame_queues s) = 2 * length (current_frames s)"
    "\<forall>i<n. current_frames s ! i \<noteq> None"
  shows "fold (align_step m) [0..<n] (Inr (s, b)) =
     Inr (s\<lparr>frame_queues := align_fq m n s, current_frames := align_cur m n s\<rparr>,
          b \<and> (\<forall>i<n. timestamp (the (current_frames s ! i)) = m))"
  using assms
proof (induction n)
  case 0
  show ?case by (simp add: align_fq_def align_cur_def map_nth)
next
  case (Suc n)
  let ?s = "s\<lparr>frame_queues := align_fq m n s, current_frames := align_cur m n s\<rparr>"
  let ?q = "n * 2 + 1"
  have n: "n < length (current_frames s)" "?q < length (frame_queues s)"
    using Suc.prems by auto
  from Suc.prems obtain c where c: "current_frames s ! n = Some c" by auto
  have curn: "current_frames ?s ! n = Some c"
    using n c by (simp add: align_cur_def)
  have fqn: "frame_queues ?s ! ?q = frame_queues s ! ?q"
    using n by (simp add: align_fq_def)
  have c1: "(align_cur m n s)[n := None] = align_cur m (Suc n) s" if "timestamp c \<noteq> m"
    using that n c
    by (intro nth_equalityI) (auto simp add: align_cur_def nth_list_update less_Suc_eq)
  have c2: "align_cur m n s = align_cur m (Suc n) s" if "timestamp c = m"
    using that n c by (intro nth_equalityI) (auto simp add: align_cur_def less_Suc_eq)
  have q1: "(align_fq m n s)[?q := (frame_queues s ! ?q)
              \<lparr>enqueued := enqueued (frame_queues s ! ?q) @ [Some c]\<rparr>] = align_fq m (Suc n) s"
    if "timestamp c \<noteq> m"
    using that n c
    by (intro nth_equalityI) (auto simp add: align_fq_def nth_list_update less_Suc_eq elim!: oddE)
  have q2: "align_fq m n s = align_fq m (Suc n) s" if "timestamp c = m"
    using that n c by (intro nth_equalityI) (auto simp add: align_fq_def less_Suc_eq)
  have "fold (align_step m) [0..<Suc n] (Inr (s, b)) =
          align_step m n (fold (align_step m) [0..<n] (Inr (s, b)))"
    by simp
  also have "\<dots> = align_step m n (Inr (?s, b \<and> (\<forall>i<n. timestamp (the (current_frames s ! i)) = m)))"
    using Suc by simp
  also have "\<dots> = Inr (s\<lparr>frame_queues := align_fq m (Suc n) s, current_frames := align_cur m (Suc n) s\<rparr>,
          b \<and> (\<forall>i<Suc n. timestamp (the (current_frames s ! i)) = m))"
  proof (cases "timestamp c = m")
    case True
    show ?thesis
      using True curn c c2[OF True] q2[OF True]
      by (auto simp: align_step_def less_Suc_eq)
  next
    case False
    show ?thesis
      using False curn fqn c c1[OF False] q1[OF False]
      by (auto simp: align_step_def lf_queue_nq_def Let_def less_Suc_eq)
  qed
  finally show ?case .
qed

lemma release_fold:
  assumes "n \<le> length (current_frames s)"
    "length (frame_queues s) = 2 * length (current_frames s)"
  shows "fold release_step [0..<n] s =
     s\<lparr>frame_queues := release_fq n s, current_frames := release_cur n s\<rparr>"
  using assms
proof (induction n)
  case 0
  show ?case by (simp add: release_fq_def release_cur_def map_nth)
next
  case (Suc n)
  let ?s = "s\<lparr>frame_queues := release_fq n s, current_frames := release_cur n s\<rparr>"
  let ?q = "n * 2 + 1"
  have n: "n < length (current_frames s)" "?q < length (frame_queues s)"
    using Suc.prems by auto
  have curn: "current_frames ?s ! n = current_frames s ! n"
    using n by (simp add: release_cur_def)
  have fqn: "frame_queues ?s ! ?q = frame_queues s ! ?q"
    using n by (simp add: release_fq_def)
  have c1: "(release_cur n s)[n := None] = release_cur (Suc n) s"
    using n by (intro nth_equalityI) (auto simp add: release_cur_def nth_list_update less_Suc_eq)
  have q1: "(release_fq n s)[?q := (frame_queues s ! ?q)
              \<lparr>enqueued := enqueued (frame_queues s ! ?q) @ [current_frames s ! n]\<rparr>] = release_fq (Suc n) s"
    using n
    by (intro nth_equalityI) (auto simp add: release_fq_def nth_list_update less_Suc_eq elim!: oddE)
  have "fold release_step [0..<Suc n] s = release_step n (fold release_step [0..<n] s)"
    by simp
  also have "\<dots> = release_step n ?s" using Suc by simp
  also have "\<dots> = s\<lparr>frame_queues := release_fq (Suc n) s, current_frames := release_cur (Suc n) s\<rparr>"
    using curn fqn c1 q1 by (simp add: release_step_def lf_queue_nq_def Let_def)
  finally show ?case .
qed

lemma find_max_full:
  assumes "full_slots cam_count s" "0 < cam_count"
  shows "\<exists>m. find_max cam_count s = Inr m
           \<and> (\<forall>i<cam_count. timestamp (the (current_frames s ! i)) \<le> m)
           \<and> (\<exists>i<cam_count. timestamp (the (current_frames s ! i)) = m)"
proof -
  from find_max_fold[of cam_count s 0] assms(1)
  obtain m where m: "find_max cam_count s = Inr m"
     "\<forall>i<cam_count. timestamp (the (current_frames s ! i)) \<le> m"
     "m = 0 \<or> (\<exists>i<cam_count. timestamp (the (current_frames s ! i)) = m)"
    unfolding find_max_def full_slots_def by blast
  have "\<exists>i<cam_count. timestamp (the (current_frames s ! i)) = m"
  proof (cases "m = 0")
    case True
    with m(2) assms(2) have "timestamp (the (current_frames s ! 0)) = m" by auto
    with assms(2) show ?thesis by blast
  next
    case False
    with m(3) show ?thesis by simp
  qed
  with m show ?thesis by blast
qed

lemma align_full:
  assumes "wf_sync cam_count s" "full_slots cam_count s"
  shows "align cam_count m s =
     Inr (s\<lparr>frame_queues := align_fq m cam_count s, current_frames := align_cur m cam_count s\<rparr>,
          \<forall>i<cam_count. timestamp (the (current_frames s ! i)) = m)"
  using assms align_fold[of cam_count s m True]
  by (simp add: wf_sync_def full_slots_def align_def)

lemma fill_slots_eq:
  assumes "wf_sync cam_count s"
  shows "fill_slots fd cam_count s = (filled fd cam_count s, full_slots cam_count (filled fd cam_count s))"
  using assms fill_fold[of cam_count s fd True]
  by (simp add: wf_sync_def fill_slots_def filled_def full_slots_def)

lemma wf_filled: "wf_sync cam_count s \<Longrightarrow> wf_sync cam_count (filled fd n s)"
  by (simp add: wf_sync_def filled_def fill_cur_def fill_fq_def)

lemma wf_recycled: "wf_sync cam_count s \<Longrightarrow> wf_sync cam_count (recycled m n s)"
  by (simp add: wf_sync_def recycled_def align_cur_def align_fq_def)

lemma recycled_id:
  assumes "wf_sync cam_count s" "\<forall>i<cam_count. timestamp (the (current_frames s ! i)) = m"
  shows "recycled m cam_count s = s"
proof -
  have len: "length (current_frames s) = cam_count" "length (frame_queues s) = 2 * cam_count"
    using assms(1) by (simp_all add: wf_sync_def)
  have "align_cur m cam_count s = current_frames s"
    using assms(2) len by (intro nth_equalityI) (auto simp: align_cur_def)
  moreover have "align_fq m cam_count s = frame_queues s"
    using assms(2) len by (intro nth_equalityI) (auto simp: align_fq_def)
  ultimately show ?thesis by (simp add: recycled_def)
qed

lemma align_eq:
  assumes "wf_sync cam_count s" "full_slots cam_count s"
  shows "align cam_count m s =
     Inr (recycled m cam_count s, \<forall>i<cam_count. timestamp (the (current_frames s ! i)) = m)"
  using align_full[OF assms] by (simp add: recycled_def)

lemma emit_eq:
  assumes "wf_sync cam_count s"
  shows "emit cam_count m s =
     s\<lparr>frame_queues := release_fq cam_count s, current_frames := release_cur cam_count s,
       complete_sets := complete_sets s + 1,
       log_lines := log_lines s @ [(complete_sets s, m)]\<rparr>"
proof -
  let ?s1 = "s\<lparr>log_lines := log_lines s @ [(complete_sets s, m)]\<rparr>"
  have "fold release_step [0..<cam_count] ?s1 =
      ?s1\<lparr>frame_queues := release_fq cam_count ?s1, current_frames := release_cur cam_count ?s1\<rparr>"
    using assms by (intro release_fold) (simp_all add: wf_sync_def)
  moreover have "release_fq cam_count ?s1 = release_fq cam_count s"
    "release_cur cam_count ?s1 = release_cur cam_count s"
    by (simp_all add: release_fq_def release_cur_def)
  ultimately show ?thesis by (simp add: emit_def release_def Let_def)
qed

lemma wf_emit: "wf_sync cam_count s \<Longrightarrow> wf_sync cam_count (emit cam_count m s)"
  by (simp add: emit_eq) (simp add: wf_sync_def release_fq_def release_cur_def)

lemma find_max_ex:
  assumes "full_slots cam_count s"
  shows "\<exists>m. find_max cam_count s = Inr m
           \<and> (\<forall>i<cam_count. timestamp (the (current_frames s ! i)) \<le> m)"
  using find_max_fold[of cam_count s 0] assms
  unfolding find_max_def full_slots_def by blast

lemma loop_body_incomplete:
  assumes "wf_sync cam_count s" "\<not> full_slots cam_count (filled fd cam_count s)"
  shows "loop_body fd cam_count s = Inr (filled fd cam_count s)"
  using assms(2) by (simp add: loop_body_def fill_slots_eq[OF assms(1)])

lemma loop_body_recycle:
  assumes "wf_sync cam_count s" "full_slots cam_count (filled fd cam_count s)"
    "find_max cam_count (filled fd cam_count s) = Inr m"
    "\<not> (\<forall>i<cam_count. timestamp (the (current_frames (filled fd cam_count s) ! i)) = m)"
  shows "loop_body fd cam_count s = Inr (recycled m cam_count (filled fd cam_count s))"
  using assms(2,3,4)
  by (simp add: loop_body_def fill_slots_eq[OF assms(1)]
        align_eq[OF wf_filled[OF assms(1)] assms(2)])

lemma loop_body_emit:
  assumes "wf_sync cam_count s" "full_slots cam_count (filled fd cam_count s)"
    "find_max cam_count (filled fd cam_count s) = Inr m"
    "\<forall>i<cam_count. timestamp (the (current_frames (filled fd cam_count s) ! i)) = m"
  shows "loop_body fd cam_count s = Inr (emit cam_count m (filled fd cam_count s))"
  using assms(2,3,4) recycled_id[OF wf_filled[OF assms(1)] assms(4)]
  by (simp add: loop_body_def fill_slots_eq[OF assms(1)]
        align_eq[OF wf_filled[OF assms(1)] assms(2)])

lemma loop_body_cases [consumes 1, case_names incomplete recycle emit]:
  assumes "wf_sync cam_count s"
  obtains
    (incomplete) "\<not> full_slots cam_count (filled fd cam_count s)"
      "loop_body fd cam_count s = Inr (filled fd cam_count s)"
  | (recycle) m where "full_slots cam_count (filled fd cam_count s)"
      "find_max cam_count (filled fd cam_count s) = Inr m"
      "\<not> (\<forall>i<cam_count. timestamp (the (current_frames (filled fd cam_count s) ! i)) = m)"
      "loop_body fd cam_count s = Inr (recycled m cam_count (filled fd cam_count s))"
  | (emit) m where "full_slots cam_count (filled fd cam_count s)"
      "find_max cam_count (filled fd cam_count s) = Inr m"
      "\<forall>i<cam_count. timestamp (the (current_frames (filled fd cam_count s) ! i)) = m"
      "loop_body fd cam_count s = Inr (emit cam_count m (filled fd cam_count s))"
proof (cases "full_slots cam_count (filled fd cam_count s)")
  case False
  then show ?thesis using loop_body_incomplete[OF assms] incomplete by blast
next
  case True
  from find_max_ex[OF True] obtain m where m: "find_max cam_count (filled fd cam_count s) = Inr m"
    by blast
  show ?thesis
  proof (cases "\<forall>i<cam_count. timestamp (the (current_frames (filled fd cam_count s) ! i)) = m")
    case all: True
    show ?thesis using emit[OF True m all loop_body_emit[OF assms True m all]] .
  next
    case False
    show ?thesis using recycle[OF True m False loop_body_recycle[OF assms True m False]] .
  qed
qed

lemma loop_body_wf:
  assumes "wf_sync cam_count s"
  shows "\<exists>s'. loop_body fd cam_count s = Inr s' \<and> wf_sync cam_count s'"
  using assms
proof (cases rule: loop_body_cases[where fd = fd])
  case incomplete
  then show ?thesis using wf_filled[OF assms] by simp
next
  case (recycle m)
  then show ?thesis using wf_recycled[OF wf_filled[OF assms]] by simp
next
  case (emit m)
  then show ?thesis using wf_emit[OF wf_filled[OF assms]] by simp
qed

lemma sum_indicator_card:
  "(\<Sum>i<(n::nat). (if P i then 1 else 0::nat)) = card {i. i < n \<and> P i}"
proof (induction n)
  case 0
  show ?case by simp
next
  case (Suc n)
  have "{i. i < Suc n \<and> P i} =
        (if P n then insert n {i. i < n \<and> P i} else {i. i < n \<and> P i})"
    by (auto simp: less_Suc_eq)
  then show ?case using Suc by simp
qed

lemma wf_init_sync: "wf_sync cam_count (init_sync cam_count)"
  by (simp add: wf_sync_def init_sync_def)

lemma filled_nth:
  assumes "wf_sync cam_count s" "i < cam_count"
  shows "current_frames (filled fd cam_count s) ! i =
           (if current_frames s ! i = None then fd (i * 2) (polled (frame_queues s ! (i * 2)))
            else current_frames s ! i)"
    and "frame_queues (filled fd cam_count s) ! (i * 2) =
           (if current_frames s ! i = None
            then (frame_queues s ! (i * 2))\<lparr>polled := Suc (polled (frame_queues s ! (i * 2)))\<rparr>
            else frame_queues s ! (i * 2))"
    and "frame_queues (filled fd cam_count s) ! (i * 2 + 1) = frame_queues s ! (i * 2 + 1)"
  using assms by (simp_all add: wf_sync_def filled_def fill_cur_def fill_fq_def)

lemma filled_same:
  "log_lines (filled fd n s) = log_lines s" "complete_sets (filled fd n s) = complete_sets s"
  by (simp_all add: filled_def)

lemma recycled_nth:
  assumes "wf_sync cam_count s" "i < cam_count"
  shows "current_frames (recycled m cam_count s) ! i =
           (if timestamp (the (current_frames s ! i)) \<noteq> m then None else current_frames s ! i)"
    and "frame_queues (recycled m cam_count s) ! (i * 2) = frame_queues s ! (i * 2)"
    and "frame_queues (recycled m cam_count s) ! (i * 2 + 1) =
           (if timestamp (the (current_frames s ! i)) \<noteq> m
            then (frame_queues s ! (i * 2 + 1))
                   \<lparr>enqueued := enqueued (frame_queues s ! (i * 2 + 1)) @ [current_frames s ! i]\<rparr>
            else frame_queues s ! (i * 2 + 1))"
  using assms by (simp_all add: wf_sync_def recycled_def align_cur_def align_fq_def)

lemma recycled_same:
  "log_lines (recycled m n s) = log_lines s" "complete_sets (recycled m n s) = complete_sets s"
  by (simp_all add: recycled_def)

lemma emit_nth:
  assumes "wf_sync cam_count s" "i < cam_count"
  shows "current_frames (emit cam_count m s) ! i = None"
    and "frame_queues (emit cam_count m s) ! (i * 2) = frame_queues s ! (i * 2)"
    and "frame_queues (emit cam_count m s) ! (i * 2 + 1) =
           (frame_queues s ! (i * 2 + 1))
             \<lparr>enqueued := enqueued (frame_queues s ! (i * 2 + 1)) @ [current_frames s ! i]\<rparr>"
  using assms by (simp_all add: emit_eq[OF assms(1)] wf_sync_def release_cur_def release_fq_def)

lemma emit_same:
  assumes "wf_sync cam_count s"
  shows "log_lines (emit cam_count m s) = log_lines s @ [(complete_sets s, m)]"
    and "complete_sets (emit cam_count m s) = complete_sets s + 1"
  by (simp_all add: emit_eq[OF assms])

lemma mono_inv_init: "mono_inv fd cam_count (init_sync cam_count)"
  by (simp add: mono_inv_def wf_init_sync) (simp add: init_sync_def)

lemma mono_inv_filled:
  assumes "mono_inv fd cam_count s"
  shows "mono_inv fd cam_count (filled fd cam_count s)"
proof -
  have wf: "wf_sync cam_count s" using assms by (simp add: mono_inv_def)
  have a: "\<exists>k<polled (frame_queues (filled fd cam_count s) ! (i * 2)). fd (i * 2) k = Some b"
    if "i < cam_count" "current_frames (filled fd cam_count s) ! i = Some b" for i b
  proof (cases "current_frames s ! i = None")
    case True
    then show ?thesis using that by (auto simp: filled_nth[OF wf that(1)])
  next
    case False
    then have "current_frames s ! i = Some b" using that by (auto simp: filled_nth[OF wf that(1)])
    with assms that(1) obtain k where "k < polled (frame_queues s ! (i * 2))" "fd (i * 2) k = Some b"
      unfolding mono_inv_def by blast
    then show ?thesis using False by (auto simp: filled_nth[OF wf that(1)])
  qed
  have b: "(\<forall>b. current_frames (filled fd cam_count s) ! i = Some b \<longrightarrow> t < timestamp b) \<and>
        (\<forall>k b. polled (frame_queues (filled fd cam_count s) ! (i * 2)) \<le> k \<longrightarrow> fd (i * 2) k = Some b
           \<longrightarrow> t < timestamp b)"
    if "t \<in> set (map snd (log_lines s))" "i < cam_count" for t i
  proof -
    from assms that have old: "\<forall>b. current_frames s ! i = Some b \<longrightarrow> t < timestamp b"
      "\<forall>k b. polled (frame_queues s ! (i * 2)) \<le> k \<longrightarrow> fd (i * 2) k = Some b \<longrightarrow> t < timestamp b"
      unfolding mono_inv_def by blast+
    show ?thesis
    proof (cases "current_frames s ! i = None")
      case True
      then show ?thesis using old(2) by (auto simp: filled_nth[OF wf that(2)] dest: Suc_leD)
    next
      case False
      then show ?thesis using old by (auto simp: filled_nth[OF wf that(2)])
    qed
  qed
  show ?thesis
    unfolding mono_inv_def
    using wf_filled[OF wf] a b assms by (simp add: filled_same mono_inv_def)
qed

lemma mono_inv_recycled:
  assumes "mono_inv fd cam_count s"
  shows "mono_inv fd cam_count (recycled m cam_count s)"
proof -
  have wf: "wf_sync cam_count s" using assms by (simp add: mono_inv_def)
  have a: "\<exists>k<polled (frame_queues (recycled m cam_count s) ! (i * 2)). fd (i * 2) k = Some b"
    if "i < cam_count" "current_frames (recycled m cam_count s) ! i = Some b" for i b
  proof -
    from that have "current_frames s ! i = Some b"
      by (simp add: recycled_nth[OF wf that(1)] split: if_splits)
    with assms that(1) show ?thesis
      unfolding mono_inv_def by (simp add: recycled_nth[OF wf that(1)])
  qed
  have b: "(\<forall>b. current_frames (recycled m cam_count s) ! i = Some b \<longrightarrow> t < timestamp b) \<and>
        (\<forall>k b. polled (frame_queues (recycled m cam_count s) ! (i * 2)) \<le> k \<longrightarrow> fd (i * 2) k = Some b
           \<longrightarrow> t < timestamp b)"
    if "t \<in> set (map snd (log_lines s))" "i < cam_count" for t i
  proof -
    from assms that have old: "\<forall>b. current_frames s ! i = Some b \<longrightarrow> t < timestamp b"
      "\<forall>k b. polled (frame_queues s ! (i * 2)) \<le> k \<longrightarrow> fd (i * 2) k = Some b \<longrightarrow> t < timestamp b"
      unfolding mono_inv_def by blast+
    then show ?thesis by (auto simp: recycled_nth[OF wf that(2)] split: if_splits)
  qed
  show ?thesis
    unfolding mono_inv_def
    using wf_recycled[OF wf] a b assms by (simp add: recycled_same mono_inv_def)
qed

lemma mono_inv_emit:
  assumes "mono_inv fd cam_count s" "increasing_feed cam_count fd" "0 < cam_count"
    "full_slots cam_count s" "\<forall>i<cam_count. timestamp (the (current_frames s ! i)) = m"
  shows "mono_inv fd cam_count (emit cam_count m s)"
proof -
  have wf: "wf_sync cam_count s" using assms(1) by (simp add: mono_inv_def)
  have cur: "\<exists>b. current_frames s ! i = Some b \<and> timestamp b = m" if "i < cam_count" for i
    using assms(4,5) that unfolding full_slots_def by force
  have old_lt: "t < m" if "t \<in> set (map snd (log_lines s))" for t
  proof -
    from cur[OF assms(3)] obtain b where "current_frames s ! 0 = Some b" "timestamp b = m" by blast
    with assms(1,3) that show ?thesis unfolding mono_inv_def by blast
  qed
  have fut: "m < timestamp b"
    if "i < cam_count" "polled (frame_queues s ! (i * 2)) \<le> k" "fd (i * 2) k = Some b" for i k b
  proof -
    from cur[OF that(1)] obtain c where c: "current_frames s ! i = Some c" "timestamp c = m" by blast
    with assms(1) that(1) obtain k0 where k0: "k0 < polled (frame_queues s ! (i * 2))"
      "fd (i * 2) k0 = Some c" unfolding mono_inv_def by blast
    then have "k0 < k" using that(2) by simp
    with assms(2) that(1,3) k0(2) have "timestamp c < timestamp b"
      unfolding increasing_feed_def by blast
    then show ?thesis using c(2) by simp
  qed
  have b: "(\<forall>b. current_frames (emit cam_count m s) ! i = Some b \<longrightarrow> t < timestamp b) \<and>
        (\<forall>k b. polled (frame_queues (emit cam_count m s) ! (i * 2)) \<le> k \<longrightarrow> fd (i * 2) k = Some b
           \<longrightarrow> t < timestamp b)"
    if "t \<in> set (map snd (log_lines (emit cam_count m s)))" "i < cam_count" for t i
  proof -
    from that(1) have "t = m \<or> t \<in> set (map snd (log_lines s))"
      by (auto simp: emit_same[OF wf])
    then show ?thesis
    proof
      assume "t = m"
      then show ?thesis using fut[OF that(2)] by (auto simp: emit_nth[OF wf that(2)])
    next
      assume t: "t \<in> set (map snd (log_lines s))"
      with assms(1) that(2) have
        "\<forall>k b. polled (frame_queues s ! (i * 2)) \<le> k \<longrightarrow> fd (i * 2) k = Some b \<longrightarrow> t < timestamp b"
        unfolding mono_inv_def by blast
      then show ?thesis by (auto simp: emit_nth[OF wf that(2)])
    qed
  qed
  have srt: "sorted_wrt (<) (map snd (log_lines (emit cam_count m s)))"
    using assms(1) old_lt by (auto simp: emit_same[OF wf] sorted_wrt_append mono_inv_def)
  have a: "\<forall>i<cam_count. \<forall>b. current_frames (emit cam_count m s) ! i = Some b \<longrightarrow>
        (\<exists>k<polled (frame_queues (emit cam_count m s) ! (i * 2)). fd (i * 2) k = Some b)"
    by (simp add: emit_nth[OF wf])
  show ?thesis
    unfolding mono_inv_def using wf_emit[OF wf] a b srt by blast
qed

lemma mono_inv_loop_body:
  assumes "mono_inv fd cam_count s" "increasing_feed cam_count fd" "0 < cam_count"
  shows "\<exists>s'. loop_body fd cam_count s = Inr s' \<and> mono_inv fd cam_count s'"
proof -
  have wf: "wf_sync cam_count s" using assms(1) by (simp add: mono_inv_def)
  from wf show ?thesis
  proof (cases rule: loop_body_cases[where fd = fd])
    case incomplete
    then show ?thesis using mono_inv_filled[OF assms(1)] by simp
  next
    case (recycle m)
    then show ?thesis using mono_inv_recycled[OF mono_inv_filled[OF assms(1)]] by simp
  next
    case (emit m)
    then show ?thesis
      using mono_inv_emit[OF mono_inv_filled[OF assms(1)] assms(2,3) emit(1,3)] by simp
  qed
qed

lemma mono_inv_passes:
  assumes "increasing_feed cam_count fd" "0 < cam_count"
  shows "mono_inv fd cam_count s \<Longrightarrow> \<exists>s'. passes n fd cam_count s = Inr s' \<and> mono_inv fd cam_count s'"
proof (induction n arbitrary: s)
  case 0
  then show ?case by simp
next
  case (Suc n)
  show ?case
  proof (cases "complete_sets s < 100")
    case False
    then show ?thesis using Suc.prems by simp
  next
    case True
    from mono_inv_loop_body[OF Suc.prems assms] obtain s1 where
      s1: "loop_body fd cam_count s = Inr s1" "mono_inv fd cam_count s1" by blast
    from Suc.IH[OF s1(2)] show ?thesis using True s1(1) by simp
  qed
qed

lemma increasing_list_feed:
  assumes "\<forall>i<cam_count. sorted_wrt (<) (map timestamp (frames (i * 2)))"
  shows "increasing_feed cam_count (list_feed frames)"
  unfolding increasing_feed_def
proof (intro allI impI)
  fix i k k' a b
  assume h: "i < cam_count" "k < k'" "list_feed frames (i * 2) k = Some a"
    "list_feed frames (i * 2) k' = Some b"
  let ?xs = "frames (i * 2)"
  from h(3,4) have len: "k < length ?xs" "k' < length ?xs" and ab: "a = ?xs ! k" "b = ?xs ! k'"
    by (auto simp: list_feed_def split: if_splits)
  from assms h(1) have "sorted_wrt (<) (map timestamp ?xs)" by blast
  from sorted_wrt_nth_less[OF this, of k k'] h(2) len
  show "timestamp a < timestamp b" by (simp add: ab)
qed

lemma increasing_s2: "increasing_feed 2 (list_feed s2_frames)"
proof (rule increasing_list_feed, intro allI impI)
  fix i :: nat
  assume "i < 2"
  then have "i = 0 \<or> i = 1" by auto
  then show "sorted_wrt (<) (map timestamp (s2_frames (i * 2)))"
    by (auto simp: s2_frames_def)
qed

lemma passes_add:
  "passes (a + b) fd cam_count s =
     (case passes a fd cam_count s of Inl e \<Rightarrow> Inl e | Inr s' \<Rightarrow> passes b fd cam_count s')"
proof (induction a arbitrary: s)
  case 0
  show ?case by simp
next
  case (Suc a)
  show ?case
  proof (cases "complete_sets s < 100")
    case True
    then show ?thesis using Suc by (simp split: sum.splits)
  next
    case False
    then show ?thesis by (cases b) simp_all
  qed
qed

lemma s2_passes_0: "passes 0 (list_feed s2_frames) 2 (init_sync 2) = Inr (init_sync 2)"
  by simp

lemma s2_passes_1: "passes 1 (list_feed s2_frames) 2 (init_sync 2) = Inr
  \<lparr>frame_queues = [\<lparr>polled = 1, enqueued = []\<rparr>,
     \<lparr>polled = 0, enqueued = [Some \<lparr>timestamp = 100, frame_buf = 0\<rparr>]\<rparr>,
     \<lparr>polled = 1, enqueued = []\<rparr>, \<lparr>polled = 0, enqueued = []\<rparr>],
   current_frames = [None, Some \<lparr>timestamp = 200, frame_buf = 131072\<rparr>],
   complete_sets = 0, log_lines = []\<rparr>"
  by code_simp

lemma s2_passes_2: "passes 2 (list_feed s2_frames) 2 (init_sync 2) = Inr
  \<lparr>frame_queues = [\<lparr>polled = 2, enqueued = []\<rparr>,
     \<lparr>polled = 0, enqueued = [Some \<lparr>timestamp = 100, frame_buf = 0\<rparr>,
                              Some \<lparr>timestamp = 200, frame_buf = 4096\<rparr>]\<rparr>,
     \<lparr>polled = 1, enqueued = []\<rparr>,
     \<lparr>polled = 0, enqueued = [Some \<lparr>timestamp = 200, frame_buf = 131072\<rparr>]\<rparr>],
   current_frames = [None, None],
   complete_sets = 1, log_lines = [(0, 200)]\<rparr>"
  by code_simp

lemma s2_passes_3: "passes 3 (list_feed s2_frames) 2 (init_sync 2) = Inr
  \<lparr>frame_queues = [\<lparr>polled = 3, enqueued = []\<rparr>,
     \<lparr>polled = 0, enqueued = [Some \<lparr>timestamp = 100, frame_buf = 0\<rparr>,
                              Some \<lparr>timestamp = 200, frame_buf = 4096\<rparr>,
                              Some \<lparr>timestamp = 300, frame_buf = 8192\<rparr>]\<rparr>,
     \<lparr>polled = 2, enqueued = []\<rparr>,
     \<lparr>polled = 0, enqueued = [Some \<lparr>timestamp = 200, frame_buf = 131072\<rparr>,
                              Some \<lparr>timestamp = 300, frame_buf = 135168\<rparr>]\<rparr>],
   current_frames = [None, None],
   complete_sets = 2, log_lines = [(0, 200), (1, 300)]\<rparr>"
  by code_simp

lemma s2_passes_4: "passes 4 (list_feed s2_frames) 2 (init_sync 2) = Inr (s2_final 4)"
  by code_simp

lemma s2_idle:
  assumes "4 \<le> n"
  shows "loop_body (list_feed s2_frames) 2 (s2_final n) = Inr (s2_final (Suc n))"
proof -
  have wf: "wf_sync 2 (s2_final n)" by (simp add: wf_sync_def s2_final_def)
  have f: "filled (list_feed s2_frames) 2 (s2_final n) = s2_final (Suc n)"
    using assms
    by (simp add: filled_def fill_cur_def fill_fq_def s2_final_def list_feed_def s2_frames_def
          nth_Cons' Suc_diff_le)
  have "\<not> full_slots 2 (s2_final (Suc n))"
    by (auto simp: full_slots_def s2_final_def intro!: exI[of _ 0])
  with f loop_body_incomplete[OF wf, of "list_feed s2_frames"] show ?thesis by simp
qed

lemma s2_idle_passes:
  "4 \<le> n \<Longrightarrow> passes k (list_feed s2_frames) 2 (s2_final n) = Inr (s2_final (n + k))"
proof (induction k arbitrary: n)
  case 0
  show ?case by simp
next
  case (Suc k)
  have "complete_sets (s2_final n) < 100" by (simp add: s2_final_def)
  then show ?case using s2_idle[OF Suc.prems] Suc.IH[of "Suc n"] Suc.prems by simp
qed

lemma s2_passes_ge4:
  assumes "4 \<le> n"
  shows "passes n (list_feed s2_frames) 2 (init_sync 2) = Inr (s2_final n)"
proof -
  have "passes (4 + (n - 4)) (list_feed s2_frames) 2 (init_sync 2) = Inr (s2_final (4 + (n - 4)))"
    unfolding passes_add by (simp add: s2_passes_4 s2_idle_passes)
  then show ?thesis using assms by simp
qed

lemma s2_prefix:
  "\<exists>s k. passes n (list_feed s2_frames) 2 (init_sync 2) = Inr s \<and>
      map snd (log_lines s) = take k [200, 300, 400] \<and>
      count_list (map (map_option timestamp) (enqueued (frame_queues s ! 1))) (Some 100) \<le> 1"
proof -
  have step: "\<exists>s k. passes n (list_feed s2_frames) 2 (init_sync 2) = Inr s \<and>
      map snd (log_lines s) = take k [200, 300, 400] \<and>
      count_list (map (map_option timestamp) (enqueued (frame_queues s ! 1))) (Some 100) \<le> 1"
    if "passes n (list_feed s2_frames) 2 (init_sync 2) = Inr s"
      "map snd (log_lines s) = take k [200, 300, 400]"
      "count_list (map (map_option timestamp) (enqueued (frame_queues s ! 1))) (Some 100) \<le> 1"
    for s k
    by (rule exI[of _ s], rule exI[of _ k]) (intro conjI that)
  consider "n = 0" | "n = 1" | "n = 2" | "n = 3" | "4 \<le> n" by linarith
  then show ?thesis
  proof cases
    case 1
    show ?thesis
      by (rule step[of "init_sync 2" 0]) (simp_all add: 1 init_sync_def)
  next
    case 2
    show ?thesis
      by (rule step[of _ 0], unfold 2, rule s2_passes_1) simp_all
  next
    case 3
    show ?thesis
      by (rule step[of _ 1], unfold 3, rule s2_passes_2) simp_all
  next
    case 4
    show ?thesis
      by (rule step[of _ 2], unfold 4, rule s2_passes_3) simp_all
  next
    case 5
    show ?thesis
      by (rule step[of _ 3], rule s2_passes_ge4[OF 5]) (simp_all add: s2_final_def)
  qed
qed

lemma count_inv_init: "count_inv cam_count (init_sync cam_count)"
  by (simp add: count_inv_def wf_init_sync) (simp add: init_sync_def)

lemma count_inv_loop_body:
  assumes "count_inv cam_count s" "complete_sets s < 100"
  shows "\<exists>s'. loop_body fd cam_count s = Inr s' \<and> count_inv cam_count s'"
proof -
  have wf: "wf_sync cam_count s" using assms(1) by (simp add: count_inv_def)
  have wf1: "wf_sync cam_count (filled fd cam_count s)" by (rule wf_filled[OF wf])
  have lt: "unat (complete_sets s) < 100" using assms(2) by (simp add: word_less_nat_alt)
  then have ne: "complete_sets s \<noteq> 100" by auto
  from wf show ?thesis
  proof (cases rule: loop_body_cases[where fd = fd])
    case incomplete
    have "count_inv cam_count (filled fd cam_count s)"
      using assms(1) ne wf1 by (simp add: count_inv_def filled_same)
    then show ?thesis using incomplete by simp
  next
    case (recycle m)
    have "count_inv cam_count (recycled m cam_count (filled fd cam_count s))"
      using assms(1) ne wf_recycled[OF wf1]
      by (simp add: count_inv_def filled_same recycled_same)
    then show ?thesis using recycle by simp
  next
    case (emit m)
    have "unat (complete_sets s + 1) = unat (complete_sets s) + 1"
      using lt by (simp add: unat_word_ariths)
    then have "count_inv cam_count (emit cam_count m (filled fd cam_count s))"
      using assms(1) lt wf_emit[OF wf1]
      by (simp add: count_inv_def emit_same[OF wf1] emit_nth[OF wf1] filled_same)
    then show ?thesis using emit by simp
  qed
qed

lemma sync_loop_exit:
  "count_inv cam_count s \<Longrightarrow> sync_loop fuel fd cam_count s = Some r \<Longrightarrow>
     \<exists>s'. r = Inr s' \<and> count_inv cam_count s' \<and> \<not> complete_sets s' < 100"
proof (induction fuel arbitrary: s)
  case 0
  then show ?case by (auto split: if_splits)
next
  case (Suc n)
  show ?case
  proof (cases "complete_sets s < 100")
    case False
    then show ?thesis using Suc.prems by auto
  next
    case True
    from count_inv_loop_body[OF Suc.prems(1) True] obtain s1 where
      s1: "loop_body fd cam_count s = Inr s1" "count_inv cam_count s1" by blast
    from Suc.prems(2) True s1(1) have "sync_loop n fd cam_count s1 = Some r" by simp
    from Suc.IH[OF s1(2) this] show ?thesis .
  qed
qed

lemma count_inv_at_exit:
  assumes "count_inv cam_count s" "\<not> complete_sets s < 100"
  shows "complete_sets s = 100 \<and> length (log_lines s) = 100 \<and>
         (\<forall>i<cam_count. current_frames s ! i = None)"
proof -
  from assms(2) have "100 \<le> unat (complete_sets s)"
    by (simp add: word_less_nat_alt)
  with assms(1) have u: "unat (complete_sets s) = 100" "length (log_lines s) = 100"
    by (auto simp: count_inv_def)
  then have "complete_sets s = 100"
    by (simp add: word_unat_eq_iff)
  with assms(1) u show ?thesis by (simp add: count_inv_def)
qed


lemma lock_inv_init: "lock_inv cam_count 0 (init_sync cam_count)"
  by (simp add: lock_inv_def wf_init_sync) (simp add: init_sync_def)

lemma lock_step:
  assumes "in_lockstep cam_count fd grid" "0 < cam_count" "lock_inv cam_count k s"
  shows "\<exists>s'. loop_body fd cam_count s = Inr s' \<and> lock_inv cam_count (Suc k) s'"
proof -
  let ?s1 = "filled fd cam_count s"
  have wf: "wf_sync cam_count s" using assms(3) by (simp add: lock_inv_def)
  have wf1: "wf_sync cam_count ?s1" by (rule wf_filled[OF wf])
  have cur1: "\<exists>b. current_frames ?s1 ! i = Some b \<and> timestamp b = grid k" if "i < cam_count" for i
  proof -
    from assms(3) that have "current_frames s ! i = None" "polled (frame_queues s ! (i * 2)) = k"
      by (simp_all add: lock_inv_def)
    moreover from assms(1) that obtain b where "fd (i * 2) k = Some b" "timestamp b = grid k"
      unfolding in_lockstep_def by blast
    ultimately show ?thesis by (simp add: filled_nth[OF wf that])
  qed
  have pol1: "polled (frame_queues ?s1 ! (i * 2)) = Suc k" if "i < cam_count" for i
    using assms(3) that by (simp add: filled_nth[OF wf that] lock_inv_def)
  have full: "full_slots cam_count ?s1"
    unfolding full_slots_def using cur1 by fastforce
  have ts: "timestamp (the (current_frames ?s1 ! i)) = grid k" if "i < cam_count" for i
    using cur1[OF that] by auto
  from find_max_full[OF full assms(2)] obtain m where
    m: "find_max cam_count ?s1 = Inr m" "\<exists>i<cam_count. timestamp (the (current_frames ?s1 ! i)) = m"
    by blast
  from m(2) ts have mk: "m = grid k" by auto
  have all: "\<forall>i<cam_count. timestamp (the (current_frames ?s1 ! i)) = m"
    using ts mk by simp
  have e: "loop_body fd cam_count s = Inr (emit cam_count m ?s1)"
    by (rule loop_body_emit[OF wf full m(1) all])
  have "complete_sets ?s1 = of_nat k" using assms(3) by (simp add: filled_same lock_inv_def)
  then have "lock_inv cam_count (Suc k) (emit cam_count m ?s1)"
    using wf_emit[OF wf1] pol1
    by (simp add: lock_inv_def emit_same[OF wf1] emit_nth[OF wf1])
  with e show ?thesis by simp
qed

lemma lock_run:
  assumes "in_lockstep cam_count fd grid" "0 < cam_count"
  shows "lock_inv cam_count k s \<Longrightarrow> k + j = 100 \<Longrightarrow>
     \<exists>s'. sync_loop j fd cam_count s = Some (Inr s') \<and> lock_inv cam_count 100 s'"
proof (induction j arbitrary: k s)
  case 0
  then have "complete_sets s = 100" by (simp add: lock_inv_def)
  then show ?case using 0 by simp
next
  case (Suc j)
  then have k: "k < 100" by simp
  have "complete_sets s = of_nat k" using Suc.prems(1) by (simp add: lock_inv_def)
  then have "unat (complete_sets s) = k" using k by (simp add: unat_of_nat)
  then have lt: "complete_sets s < 100" using k by (simp add: word_less_nat_alt)
  from lock_step[OF assms Suc.prems(1)] obtain s1 where
    s1: "loop_body fd cam_count s = Inr s1" "lock_inv cam_count (Suc k) s1" by blast
  from Suc.prems(2) have "Suc k + j = 100" by simp
  from Suc.IH[OF s1(2) this] show ?case using lt s1(1) by simp
qed

lemma odd_even_timestamps:
  "odd (2 * of_nat k + 1 :: 64 word)" "even (2 * of_nat k + 2 :: 64 word)"
  by simp_all

lemma spin_inv_init: "spin_inv (init_sync 2)"
  by (simp add: spin_inv_def wf_init_sync) (simp add: init_sync_def)

lemma spin_step:
  assumes "spin_inv s"
  shows "\<exists>s'. loop_body never_aligned_feed 2 s = Inr s' \<and> spin_inv s'"
proof -
  let ?s1 = "filled never_aligned_feed 2 s"
  have wf: "wf_sync 2 s" using assms by (simp add: spin_inv_def)
  have wf1: "wf_sync 2 ?s1" by (rule wf_filled[OF wf])
  have i0: "(0::nat) < 2" and i1: "(1::nat) < 2" by simp_all
  have c0: "\<exists>b. current_frames ?s1 ! 0 = Some b \<and> odd (timestamp b)"
    using assms filled_nth(1)[OF wf i0, of never_aligned_feed]
    by (cases "current_frames s ! 0") (auto simp: spin_inv_def never_aligned_feed_def)
  have c1: "\<exists>b. current_frames ?s1 ! 1 = Some b \<and> even (timestamp b)"
    using assms filled_nth(1)[OF wf i1, of never_aligned_feed]
    by (cases "current_frames s ! 1") (auto simp: spin_inv_def never_aligned_feed_def)
  have sp1: "spin_inv ?s1"
    using assms wf1 c0 c1 by (auto simp: spin_inv_def filled_same)
  have ne: "\<not> (\<forall>i<2. timestamp (the (current_frames ?s1 ! i)) = m)" for m
  proof
    assume a: "\<forall>i<2. timestamp (the (current_frames ?s1 ! i)) = m"
    from a i0 have "timestamp (the (current_frames ?s1 ! 0)) = m" by blast
    moreover from a i1 have "timestamp (the (current_frames ?s1 ! 1)) = m" by blast
    ultimately show False using c0 c1 by auto
  qed
  have full: "full_slots 2 ?s1"
    unfolding full_slots_def
  proof (intro allI impI)
    fix i :: nat assume "i < 2"
    then have "i = 0 \<or> i = 1" by auto
    then show "current_frames ?s1 ! i \<noteq> None" using c0 c1 by auto
  qed
  from wf show ?thesis
  proof (cases rule: loop_body_cases[where fd = never_aligned_feed])
    case incomplete
    then show ?thesis using full by simp
  next
    case (recycle m)
    have "spin_inv (recycled m 2 ?s1)"
      using sp1 wf_recycled[OF wf1] recycled_nth(1)[OF wf1 i0, of m] recycled_nth(1)[OF wf1 i1, of m]
      by (auto simp: spin_inv_def recycled_same split: if_splits)
    then show ?thesis using recycle by simp
  next
    case (emit m)
    then show ?thesis using ne by simp
  qed
qed

lemma spin_forever: "spin_inv s \<Longrightarrow> sync_loop fuel never_aligned_feed 2 s = None"
proof (induction fuel arbitrary: s)
  case 0
  then show ?case by (simp add: spin_inv_def)
next
  case (Suc n)
  from spin_step[OF Suc.prems] obtain s1 where
    s1: "loop_body never_aligned_feed 2 s = Inr s1" "spin_inv s1" by blast
  from Suc.prems have "complete_sets s < 100" by (simp add: spin_inv_def)
  then show ?case using s1(1) Suc.IH[OF s1(2)] by simp
qed

lemma spawn_workers_ok:
  "(\<forall>i\<in>set idxs. create i = 0) \<Longrightarrow> spawn_workers create idxs evs = Inr (evs @ map Spawn idxs)"
  by (induction idxs arbitrary: evs) simp_all

lemma stop_bytes: "take (strlen stop_msg) stop_msg = [0x53, 0x54, 0x4F, 0x50]"
  by (simp add: strlen_def stop_msg_def)

lemma main_ok:
  assumes "startup_ok cam_count e"
  shows "main fuel e =
     (case sync_loop fuel (dq_feed e) cam_count (init_sync cam_count) of
        None \<Rightarrow> None
      | Some (Inl err) \<Rightarrow>
          Some (Fault err, map Spawn [0..<cam_count] @
            [Broadcast (bytes_of_u64 (start_timestamp (clock_gettime_ts e)))])
      | Some (Inr s) \<Rightarrow>
          Some (Exit 0, map Spawn [0..<cam_count] @
            [Broadcast (bytes_of_u64 (start_timestamp (clock_gettime_ts e))),
             Broadcast [0x53, 0x54, 0x4F, 0x50]] @
            map Join [0..<cam_count] @ [FreeFrameBufs, CleanupLogging]))"
proof -
  have sp: "spawn_workers (pthread_create_ret e) [0..<cam_count] [] = Inr (map Spawn [0..<cam_count])"
    using assms spawn_workers_ok[of "[0..<cam_count]" "pthread_create_ret e" "[]"]
    by (simp add: startup_ok_def)
  show ?thesis
    using assms sp
    by (simp add: main_def startup_ok_def Let_def stop_bytes split: option.splits sum.splits)
qed

lemma main_zero_cameras: "main fuel zero_cameras_env = Some (Exit 0, [CleanupLogging])"
  by (simp add: main_def zero_cameras_env_def demo_env_def)

lemma main_spawn_fail:
  "main fuel spawn_fail_env = Some (Exit 11, [Spawn 0, FreeFrameBufs, CleanupLogging])"
  by (simp add: main_def spawn_fail_env_def demo_env_def upt_rec)

lemma startup_ok_demo: "startup_ok 2 demo_env"
  by (simp add: startup_ok_def demo_env_def)

lemma lockstep_demo: "in_lockstep 2 (dq_feed demo_env) (\<lambda>k. of_nat k * 100 + 100)"
  by (simp add: in_lockstep_def demo_env_def lockstep_feed_def)

lemma upt_8: "[0..<8] = [0, 1, 2, 3, 4, 5, 6, 7::nat]"
  by (simp add: upt_rec)

lemma u64_roundtrip: "u64_of_bytes (bytes_of_u64 w) = w"
  unfolding u64_of_bytes_def bytes_of_u64_def upt_8
proof (rule bit_eqI)
  fix n
  assume "possible_bit TYPE(64 word) n"
  then have n: "n < 64" by simp
  consider "n < 8" | "8 \<le> n \<and> n < 16" | "16 \<le> n \<and> n < 24" | "24 \<le> n \<and> n < 32"
    | "32 \<le> n \<and> n < 40" | "40 \<le> n \<and> n < 48" | "48 \<le> n \<and> n < 56" | "56 \<le> n \<and> n < 64"
    using n by linarith
  then show "bit (foldr (\<lambda>b acc. ucast b OR push_bit 8 acc)
            (map (\<lambda>k. ucast (drop_bit (8 * k) w) :: 8 word) [0, 1, 2, 3, 4, 5, 6, 7]) (0::64 word)) n = bit w n"
    by cases (auto simp add: bit_simps)
qed

lemma start_timestamp_eq: "start_timestamp ts = now_ns ts + 1000000000"
  by (simp add: start_timestamp_def now_ns_def TIMESTAMP_DELAY_def algebra_simps)

lemma start_timestamp_exact:
  assumes "(unat (tv_sec ts) + 1) * 1000000000 + unat (tv_nsec ts) < 2 ^ 64"
  shows "unat (start_timestamp ts) = (unat (tv_sec ts) + 1) * 1000000000 + unat (tv_nsec ts)"
proof -
  have s: "unat (tv_sec ts) + 1 < 2 ^ 64" using assms by simp
  have a: "unat (tv_sec ts + 1) = unat (tv_sec ts) + 1"
    using s unat_add_lem[of "tv_sec ts" 1] by simp
  have m: "unat (tv_sec ts + 1) * unat (1000000000 :: 64 word) < 2 ^ 64"
    using assms a by simp
  have b: "unat ((tv_sec ts + 1) * 1000000000) = (unat (tv_sec ts) + 1) * 1000000000"
    using m a unat_mult_lem[of "tv_sec ts + 1" "1000000000 :: 64 word"] by simp
  have p: "unat ((tv_sec ts + 1) * 1000000000) + unat (tv_nsec ts) < 2 ^ 64"
    using assms b by simp
  have "unat ((tv_sec ts + 1) * 1000000000 + tv_nsec ts) =
        unat ((tv_sec ts + 1) * 1000000000) + unat (tv_nsec ts)"
    using p unat_add_lem[of "(tv_sec ts + 1) * 1000000000" "tv_nsec ts"] by simp
  with b show ?thesis by (simp add: start_timestamp_def TIMESTAMP_DELAY_def)
qed

lemma init_fold:
  "n \<le> length bufs \<Longrightarrow>
   fold (set_frame_buf base sz) [0..<n] bufs =
     map (\<lambda>j. if j < n then (bufs ! j)\<lparr>frame_buf := base + of_nat j * sz\<rparr> else bufs ! j)
       [0..<length bufs]"
proof (induction n)
  case 0
  show ?case by (simp add: map_nth)
next
  case (Suc n)
  then have n: "n < length bufs" by simp
  let ?f = "\<lambda>m j. if j < m then (bufs ! j)\<lparr>frame_buf := base + of_nat j * sz\<rparr> else bufs ! j"
  have "fold (set_frame_buf base sz) [0..<Suc n] bufs =
        set_frame_buf base sz n (map (?f n) [0..<length bufs])"
    using Suc by simp
  also have "\<dots> = map (?f (Suc n)) [0..<length bufs]"
    using n by (intro nth_equalityI) (auto simp: set_frame_buf_def nth_list_update less_Suc_eq)
  finally show ?case .
qed

lemma init_frame_bufs_nth:
  assumes "length bufs = frame_bufs_count cam_count" "j < frame_bufs_count cam_count"
  shows "init_frame_bufs base sz cam_count bufs ! j = (bufs ! j)\<lparr>frame_buf := base + of_nat j * sz\<rparr>"
  using assms by (simp add: init_frame_bufs_def init_fold)

lemma length_init_frame_bufs:
  "length bufs = frame_bufs_count cam_count \<Longrightarrow>
   length (init_frame_bufs base sz cam_count bufs) = frame_bufs_count cam_count"
  by (simp add: init_frame_bufs_def init_fold)

lemma unat_offset:
  assumes "j * unat (sz :: 64 word) < 2 ^ 64"
  shows "unat (of_nat j * sz :: 64 word) = j * unat sz"
proof (cases "sz = 0")
  case True
  then show ?thesis by simp
next
  case False
  then have "0 < unat sz" by (simp add: unat_gt_0)
  then have "j \<le> j * unat sz" by simp
  from le_less_trans[OF this assms] have j: "j < 2 ^ 64" .
  then have u: "unat (of_nat j :: 64 word) = j" by (simp add: unat_of_nat)
  with assms have "unat (of_nat j :: 64 word) * unat sz < 2 ^ 64" by simp
  with unat_mult_lem[of "of_nat j :: 64 word" sz] u show ?thesis by simp
qed

lemma slot_disjoint:
  fixes s :: nat
  assumes "i \<noteq> j"
  shows "{i * s ..< i * s + s} \<inter> {j * s ..< j * s + s} = {}"
proof -
  have d: "{a * s ..< a * s + s} \<inter> {b * s ..< b * s + s} = {}" if "a < b" for a b :: nat
  proof -
    from that have "Suc a * s \<le> b * s" by (intro mult_le_mono1) simp
    then have "a * s + s \<le> b * s" by (simp add: add.commute)
    then show ?thesis by auto
  qed
  from assms consider "i < j" | "j < i" by linarith
  then show ?thesis
  proof cases
    case 1 then show ?thesis by (rule d)
  next
    case 2 from d[OF 2] show ?thesis by (simp add: Int_commute)
  qed
qed

lemma slots_tile:
  fixes s :: nat
  shows "(\<Union>j<n. {j * s ..< j * s + s}) = {0 ..< n * s}"
proof (induction n)
  case 0
  show ?case by simp
next
  case (Suc n)
  have "(\<Union>j<Suc n. {j * s ..< j * s + s}) = (\<Union>j<n. {j * s ..< j * s + s}) \<union> {n * s ..< n * s + s}"
    by (simp add: lessThan_Suc Un_commute)
  also have "\<dots> = {0 ..< n * s} \<union> {n * s ..< n * s + s}" using Suc by simp
  also have "\<dots> = {0 ..< Suc n * s}" by (auto simp: add.commute)
  finally show ?case .
qed

lemma demo_loop: "\<exists>s. sync_loop 100 lockstep_feed 2 (init_sync 2) = Some (Inr s)"
proof -
  have l: "in_lockstep 2 lockstep_feed (\<lambda>k. of_nat k * 100 + 100)"
    by (simp add: in_lockstep_def lockstep_feed_def)
  have c: "(0::nat) < 2" by simp
  from lock_run[OF l c lock_inv_init, of 100] show ?thesis by auto
qed

lemma main_demo:
  "main 100 demo_env = Some (Exit 0,
        [Spawn 0, Spawn 1,
         Broadcast (bytes_of_u64 (start_timestamp (clock_gettime_ts demo_env))),
         Broadcast [0x53, 0x54, 0x4F, 0x50], Join 0, Join 1, FreeFrameBufs, CleanupLogging])"
proof -
  from demo_loop obtain s where s: "sync_loop 100 lockstep_feed 2 (init_sync 2) = Some (Inr s)"
    by blast
  have d: "dq_feed demo_env = lockstep_feed" by (simp add: demo_env_def)
  have u: "[0..<2] = [0, Suc 0]" by (simp add: upt_rec)
  show ?thesis by (simp add: main_ok[OF startup_ok_demo] d s u)
qed

lemma demo_clock: "start_timestamp (clock_gettime_ts demo_env) = 1700000001123456789"
  by (simp add: demo_env_def start_timestamp_def TIMESTAMP_DELAY_def)

lemma demo_anchor_bytes:
  "bytes_of_u64 1700000001123456789 = [21, 151, 32, 121, 254, 156, 151, 23]"
  by code_simp

lemma wf_lagging_pair: "wf_sync 2 lagging_pair"
  by (simp add: wf_sync_def lagging_pair_def)

lemma full_lagging_pair: "full_slots 2 lagging_pair"
  by (simp add: full_slots_def lagging_pair_def less_Suc_eq numeral_2_eq_2)

lemma max_lagging_pair: "find_max 2 lagging_pair = Inr 200"
  by code_simp

lemma align_lagging_pair: "align 2 200 lagging_pair = Inr
   (\<lparr>frame_queues = [\<lparr>polled = 1, enqueued = []\<rparr>,
                       \<lparr>polled = 0, enqueued = [Some \<lparr>timestamp = 100, frame_buf = 0\<rparr>]\<rparr>,
                       \<lparr>polled = 1, enqueued = []\<rparr>, \<lparr>polled = 0, enqueued = []\<rparr>],
      current_frames = [None, Some \<lparr>timestamp = 200, frame_buf = 131072\<rparr>],
      complete_sets = 0, log_lines = []\<rparr>, False)"
  by code_simp

lemma live_inv_init: "live_inv fd cam_count common (init_sync cam_count)"
  by (simp add: live_inv_def wf_init_sync) (simp add: init_sync_def)

lemma live_inv_filled:
  assumes "live_inv fd cam_count common s"
  shows "live_inv fd cam_count common (filled fd cam_count s)"
proof -
  let ?s1 = "filled fd cam_count s"
  have wf: "wf_sync cam_count s" using assms by (simp add: live_inv_def)
  have a: "0 < polled (frame_queues ?s1 ! (i * 2)) \<and>
        fd (i * 2) (polled (frame_queues ?s1 ! (i * 2)) - 1) = Some b"
    if "i < cam_count" "current_frames ?s1 ! i = Some b" for i b
  proof (cases "current_frames s ! i = None")
    case True
    then show ?thesis using that by (auto simp: filled_nth[OF wf that(1)])
  next
    case False
    then have "current_frames s ! i = Some b" using that by (auto simp: filled_nth[OF wf that(1)])
    with assms that(1) have "0 < polled (frame_queues s ! (i * 2)) \<and>
        fd (i * 2) (polled (frame_queues s ! (i * 2)) - 1) = Some b"
      unfolding live_inv_def by blast
    then show ?thesis using False by (auto simp: filled_nth[OF wf that(1)])
  qed
  have j: "polled (frame_queues ?s1 ! (i * 2)) \<le> k \<or>
           (current_frames ?s1 ! i = Some b \<and> polled (frame_queues ?s1 ! (i * 2)) = Suc k)"
    if "t \<in> common" "t \<notin> snd ` set (log_lines s)" "i < cam_count"
       "fd (i * 2) k = Some b" "timestamp b = t" for t i k b
  proof -
    from assms that have old: "polled (frame_queues s ! (i * 2)) \<le> k \<or>
           (current_frames s ! i = Some b \<and> polled (frame_queues s ! (i * 2)) = Suc k)"
      unfolding live_inv_def by blast
    show ?thesis
    proof (cases "current_frames s ! i = None")
      case True
      with old have le: "polled (frame_queues s ! (i * 2)) \<le> k" by auto
      show ?thesis
      proof (cases "polled (frame_queues s ! (i * 2)) = k")
        case True
        then show ?thesis using \<open>current_frames s ! i = None\<close> that(4)
          by (simp add: filled_nth[OF wf that(3)])
      next
        case False
        with le have "Suc (polled (frame_queues s ! (i * 2))) \<le> k" by simp
        then show ?thesis using \<open>current_frames s ! i = None\<close>
          by (simp add: filled_nth[OF wf that(3)])
      qed
    next
      case False
      then show ?thesis using old by (auto simp: filled_nth[OF wf that(3)])
    qed
  qed
  show ?thesis
    unfolding live_inv_def
  proof (intro conjI allI impI ballI)
    show "wf_sync cam_count ?s1" by (rule wf_filled[OF wf])
  next
    fix i b assume "i < cam_count" "current_frames ?s1 ! i = Some b"
    from a[OF this] show "0 < polled (frame_queues ?s1 ! (i * 2))"
      "fd (i * 2) (polled (frame_queues ?s1 ! (i * 2)) - 1) = Some b" by simp_all
  next
    fix t assume t: "t \<in> common"
    show "t \<in> snd ` set (log_lines ?s1) \<or>
        (\<forall>i<cam_count. \<forall>k b. fd (i * 2) k = Some b \<longrightarrow> timestamp b = t \<longrightarrow>
           polled (frame_queues ?s1 ! (i * 2)) \<le> k \<or>
           (current_frames ?s1 ! i = Some b \<and> polled (frame_queues ?s1 ! (i * 2)) = Suc k))"
    proof (cases "t \<in> snd ` set (log_lines s)")
      case True
      then show ?thesis by (simp add: filled_same)
    next
      case False
      from j[OF t False] show ?thesis by blast
    qed
  qed
qed


lemma live_inv_recycled:
  assumes "live_inv fd cam_count common s" "increasing_feed cam_count fd"
    "\<forall>t\<in>common. yields cam_count fd t"
    "full_slots cam_count s"
    "\<forall>i<cam_count. timestamp (the (current_frames s ! i)) \<le> m"
    "j < cam_count" "timestamp (the (current_frames s ! j)) = m"
  shows "live_inv fd cam_count common (recycled m cam_count s)"
proof -
  let ?s2 = "recycled m cam_count s"
  have wf: "wf_sync cam_count s" using assms(1) by (simp add: live_inv_def)
  from assms(4,6) obtain c where c: "current_frames s ! j = Some c"
    unfolding full_slots_def by blast
  with assms(7) have cm: "timestamp c = m" by simp
  from assms(1,6) c have cj: "0 < polled (frame_queues s ! (j * 2))"
    "fd (j * 2) (polled (frame_queues s ! (j * 2)) - 1) = Some c"
    unfolding live_inv_def by blast+
  have a: "0 < polled (frame_queues ?s2 ! (i * 2)) \<and>
        fd (i * 2) (polled (frame_queues ?s2 ! (i * 2)) - 1) = Some b"
    if "i < cam_count" "current_frames ?s2 ! i = Some b" for i b
  proof -
    from that have "current_frames s ! i = Some b"
      by (simp add: recycled_nth[OF wf that(1)] split: if_splits)
    with assms(1) that(1) show ?thesis
      unfolding live_inv_def by (simp add: recycled_nth[OF wf that(1)])
  qed
  have jj: "polled (frame_queues ?s2 ! (i * 2)) \<le> k \<or>
           (current_frames ?s2 ! i = Some b \<and> polled (frame_queues ?s2 ! (i * 2)) = Suc k)"
    if "t \<in> common" "t \<notin> snd ` set (log_lines s)" "i < cam_count"
       "fd (i * 2) k = Some b" "timestamp b = t" for t i k b
  proof -
    from assms(1) that have old: "polled (frame_queues s ! (i * 2)) \<le> k \<or>
           (current_frames s ! i = Some b \<and> polled (frame_queues s ! (i * 2)) = Suc k)"
      unfolding live_inv_def by blast
    show ?thesis
    proof (cases "polled (frame_queues s ! (i * 2)) \<le> k")
      case True
      then show ?thesis by (simp add: recycled_nth[OF wf that(3)])
    next
      case False
      with old have held: "current_frames s ! i = Some b" "polled (frame_queues s ! (i * 2)) = Suc k"
        by simp_all
      have "t = m"
      proof (rule ccontr)
        assume ne: "t \<noteq> m"
        from assms(5) that(3) held(1) that(5) have "t \<le> m" by force
        with ne have lt: "t < m" by simp
        from assms(3) that(1) assms(6) obtain k' b' where
          kb: "fd (j * 2) k' = Some b'" "timestamp b' = t"
          unfolding yields_def by blast
        from assms(1) that(1,2) assms(6) kb have
          "polled (frame_queues s ! (j * 2)) \<le> k' \<or>
           (current_frames s ! j = Some b' \<and> polled (frame_queues s ! (j * 2)) = Suc k')"
          unfolding live_inv_def by blast
        moreover have "current_frames s ! j \<noteq> Some b'" using c cm kb(2) ne by auto
        ultimately have "polled (frame_queues s ! (j * 2)) \<le> k'" by simp
        with cj(1) have "polled (frame_queues s ! (j * 2)) - 1 < k'" by simp
        with assms(2,6) cj(2) kb(1) have "timestamp c < timestamp b'"
          unfolding increasing_feed_def by blast
        with cm kb(2) lt show False by simp
      qed
      with held that(5) show ?thesis by (simp add: recycled_nth[OF wf that(3)])
    qed
  qed
  show ?thesis
    unfolding live_inv_def
  proof (intro conjI allI impI ballI)
    show "wf_sync cam_count ?s2" by (rule wf_recycled[OF wf])
  next
    fix i b assume "i < cam_count" "current_frames ?s2 ! i = Some b"
    from a[OF this] show "0 < polled (frame_queues ?s2 ! (i * 2))"
      "fd (i * 2) (polled (frame_queues ?s2 ! (i * 2)) - 1) = Some b" by simp_all
  next
    fix t assume t: "t \<in> common"
    show "t \<in> snd ` set (log_lines ?s2) \<or>
        (\<forall>i<cam_count. \<forall>k b. fd (i * 2) k = Some b \<longrightarrow> timestamp b = t \<longrightarrow>
           polled (frame_queues ?s2 ! (i * 2)) \<le> k \<or>
           (current_frames ?s2 ! i = Some b \<and> polled (frame_queues ?s2 ! (i * 2)) = Suc k))"
    proof (cases "t \<in> snd ` set (log_lines s)")
      case True
      then show ?thesis by (simp add: recycled_same)
    next
      case False
      from jj[OF t False] show ?thesis by blast
    qed
  qed
qed

lemma live_inv_emit:
  assumes "live_inv fd cam_count common s"
    "full_slots cam_count s"
    "\<forall>i<cam_count. timestamp (the (current_frames s ! i)) = m"
  shows "live_inv fd cam_count common (emit cam_count m s)"
proof -
  let ?s3 = "emit cam_count m s"
  have wf: "wf_sync cam_count s" using assms(1) by (simp add: live_inv_def)
  have jj: "polled (frame_queues ?s3 ! (i * 2)) \<le> k \<or>
           (current_frames ?s3 ! i = Some b \<and> polled (frame_queues ?s3 ! (i * 2)) = Suc k)"
    if "t \<in> common" "t \<notin> snd ` set (log_lines ?s3)" "i < cam_count"
       "fd (i * 2) k = Some b" "timestamp b = t" for t i k b
  proof -
    from that(2) have tm: "t \<noteq> m" and nl: "t \<notin> snd ` set (log_lines s)"
      by (auto simp: emit_same[OF wf])
    from assms(1) that(1,3,4,5) nl have old: "polled (frame_queues s ! (i * 2)) \<le> k \<or>
           (current_frames s ! i = Some b \<and> polled (frame_queues s ! (i * 2)) = Suc k)"
      unfolding live_inv_def by blast
    have "current_frames s ! i \<noteq> Some b"
    proof
      assume "current_frames s ! i = Some b"
      with assms(3) that(3) have "timestamp b = m" by force
      with that(5) tm show False by simp
    qed
    with old show ?thesis by (simp add: emit_nth[OF wf that(3)])
  qed
  show ?thesis
    unfolding live_inv_def
  proof (intro conjI allI impI ballI)
    show "wf_sync cam_count ?s3" by (rule wf_emit[OF wf])
  next
    fix i b assume "i < cam_count" "current_frames ?s3 ! i = Some b"
    then show "0 < polled (frame_queues ?s3 ! (i * 2))"
      "fd (i * 2) (polled (frame_queues ?s3 ! (i * 2)) - 1) = Some b"
      by (simp_all add: emit_nth[OF wf])
  next
    fix t assume t: "t \<in> common"
    show "t \<in> snd ` set (log_lines ?s3) \<or>
        (\<forall>i<cam_count. \<forall>k b. fd (i * 2) k = Some b \<longrightarrow> timestamp b = t \<longrightarrow>
           polled (frame_queues ?s3 ! (i * 2)) \<le> k \<or>
           (current_frames ?s3 ! i = Some b \<and> polled (frame_queues ?s3 ! (i * 2)) = Suc k))"
    proof (cases "t \<in> snd ` set (log_lines ?s3)")
      case True
      then show ?thesis by simp
    next
      case False
      from jj[OF t False] show ?thesis by blast
    qed
  qed
qed


lemma polls_recycled:
  "wf_sync cam_count s \<Longrightarrow> polls cam_count (recycled m cam_count s) = polls cam_count s"
  unfolding polls_def by (rule sum.cong) (simp_all add: recycled_nth)

lemma polls_emit:
  "wf_sync cam_count s \<Longrightarrow> polls cam_count (emit cam_count m s) = polls cam_count s"
  unfolding polls_def by (rule sum.cong) (simp_all add: emit_nth)

lemma polls_filled:
  assumes "wf_sync cam_count s" "i < cam_count" "current_frames s ! i = None"
  shows "Suc (polls cam_count s) \<le> polls cam_count (filled fd cam_count s)"
proof -
  have "polls cam_count s < polls cam_count (filled fd cam_count s)"
    unfolding polls_def
  proof (rule sum_strict_mono_ex1)
    show "finite {..<cam_count}" by simp
    show "\<forall>x\<in>{..<cam_count}. polled (frame_queues s ! (x * 2))
            \<le> polled (frame_queues (filled fd cam_count s) ! (x * 2))"
      using assms(1) by (simp add: filled_nth)
    show "\<exists>a\<in>{..<cam_count}. polled (frame_queues s ! (a * 2))
            < polled (frame_queues (filled fd cam_count s) ! (a * 2))"
      using assms by (intro bexI[of _ i]) (simp_all add: filled_nth)
  qed
  then show ?thesis by simp
qed

lemma loop_body_live:
  assumes "live_inv fd cam_count common s" "increasing_feed cam_count fd"
    "\<forall>t\<in>common. yields cam_count fd t" "0 < cam_count"
    "i < cam_count" "current_frames s ! i = None"
  shows "\<exists>s'. loop_body fd cam_count s = Inr s' \<and> live_inv fd cam_count common s' \<and>
           (\<exists>i<cam_count. current_frames s' ! i = None) \<and>
           Suc (polls cam_count s) \<le> polls cam_count s'"
proof -
  let ?s1 = "filled fd cam_count s"
  have wf: "wf_sync cam_count s" using assms(1) by (simp add: live_inv_def)
  have wf1: "wf_sync cam_count ?s1" by (rule wf_filled[OF wf])
  have l1: "live_inv fd cam_count common ?s1" by (rule live_inv_filled[OF assms(1)])
  have p1: "Suc (polls cam_count s) \<le> polls cam_count ?s1"
    by (rule polls_filled[OF wf assms(5,6)])
  from wf show ?thesis
  proof (cases rule: loop_body_cases[where fd = fd])
    case incomplete
    from incomplete(1) have "\<exists>i<cam_count. current_frames ?s1 ! i = None"
      by (simp add: full_slots_def)
    with incomplete(2) l1 p1 show ?thesis by simp
  next
    case (recycle m)
    from find_max_full[OF recycle(1) assms(4)] recycle(2) obtain j where
      mx: "\<forall>i<cam_count. timestamp (the (current_frames ?s1 ! i)) \<le> m"
      and j: "j < cam_count" "timestamp (the (current_frames ?s1 ! j)) = m"
      by auto
    have l2: "live_inv fd cam_count common (recycled m cam_count ?s1)"
      by (rule live_inv_recycled[OF l1 assms(2,3) recycle(1) mx j])
    from recycle(3) obtain i' where "i' < cam_count"
      "timestamp (the (current_frames ?s1 ! i')) \<noteq> m" by blast
    then have "\<exists>i<cam_count. current_frames (recycled m cam_count ?s1) ! i = None"
      by (intro exI[of _ i']) (simp add: recycled_nth[OF wf1])
    with recycle(4) l2 p1 show ?thesis by (simp add: polls_recycled[OF wf1])
  next
    case (emit m)
    have l3: "live_inv fd cam_count common (emit cam_count m ?s1)"
      by (rule live_inv_emit[OF l1 emit(1,3)])
    have "\<exists>i<cam_count. current_frames (emit cam_count m ?s1) ! i = None"
      using assms(4) by (intro exI[of _ 0]) (simp add: emit_nth[OF wf1])
    with emit(4) l3 p1 show ?thesis by (simp add: polls_emit[OF wf1])
  qed
qed

lemma polls_bound:
  assumes "live_inv fd cam_count common s" "t \<in> common" "t \<notin> snd ` set (log_lines s)"
    "\<forall>i<cam_count. \<exists>b. fd (i * 2) (f i) = Some b \<and> timestamp b = t"
  shows "polls cam_count s \<le> (\<Sum>i<cam_count. Suc (f i))"
  unfolding polls_def
proof (rule sum_mono)
  fix i assume "i \<in> {..<cam_count}"
  then have i: "i < cam_count" by simp
  with assms(4) obtain b where b: "fd (i * 2) (f i) = Some b" "timestamp b = t" by blast
  with assms(1,2,3) i have "polled (frame_queues s ! (i * 2)) \<le> f i \<or>
           (current_frames s ! i = Some b \<and> polled (frame_queues s ! (i * 2)) = Suc (f i))"
    unfolding live_inv_def by blast
  then show "polled (frame_queues s ! (i * 2)) \<le> Suc (f i)" by auto
qed

lemma sync_loop_passes:
  "sync_loop n fd cam_count s =
     (case passes n fd cam_count s of Inl e \<Rightarrow> Some (Inl e)
      | Inr s' \<Rightarrow> if complete_sets s' < 100 then None else Some (Inr s'))"
  by (induction n arbitrary: s) (simp_all split: sum.splits)

lemma passes_Suc:
  "passes (Suc n) fd cam_count s =
     (case passes n fd cam_count s of Inl e \<Rightarrow> Inl e
      | Inr s' \<Rightarrow> if complete_sets s' < 100 then loop_body fd cam_count s' else Inr s')"
proof -
  have "passes (n + 1) fd cam_count s =
     (case passes n fd cam_count s of Inl e \<Rightarrow> Inl e | Inr s' \<Rightarrow> passes 1 fd cam_count s')"
    by (rule passes_add)
  then show ?thesis by (simp split: sum.splits)
qed

lemma run_live:
  assumes "increasing_feed cam_count fd" "\<forall>t\<in>common. yields cam_count fd t" "0 < cam_count"
  shows "\<exists>s. passes n fd cam_count (init_sync cam_count) = Inr s \<and>
           live_inv fd cam_count common s \<and> count_inv cam_count s \<and>
           (\<exists>i<cam_count. current_frames s ! i = None) \<and>
           (complete_sets s < 100 \<longrightarrow> n \<le> polls cam_count s)"
proof (induction n)
  case 0
  have "\<exists>i<cam_count. current_frames (init_sync cam_count) ! i = None"
    using assms(3) by (intro exI[of _ 0]) (simp add: init_sync_def)
  then show ?case by (simp add: live_inv_init count_inv_init)
next
  case (Suc n)
  then obtain s i where s: "passes n fd cam_count (init_sync cam_count) = Inr s"
    "live_inv fd cam_count common s" "count_inv cam_count s"
    "i < cam_count" "current_frames s ! i = None"
    "complete_sets s < 100 \<longrightarrow> n \<le> polls cam_count s"
    by blast
  show ?case
  proof (cases "complete_sets s < 100")
    case False
    then show ?thesis using s by (auto simp add: passes_Suc simp del: passes.simps)
  next
    case True
    from loop_body_live[OF s(2) assms s(4,5)] obtain s' where
      s': "loop_body fd cam_count s = Inr s'" "live_inv fd cam_count common s'"
      "\<exists>i<cam_count. current_frames s' ! i = None" "Suc (polls cam_count s) \<le> polls cam_count s'"
      by blast
    from count_inv_loop_body[OF s(3) True, of fd] s'(1) have c': "count_inv cam_count s'" by simp
    from s(6) True s'(4) have "Suc n \<le> polls cam_count s'" by simp
    with s' c' s(1) True show ?thesis by (simp add: passes_Suc del: passes.simps)
  qed
qed

lemma missing_timestamp:
  assumes "distinct ts" "length xs < length ts"
  shows "\<exists>t\<in>set ts. t \<notin> snd ` set xs"
proof (rule ccontr)
  assume "\<not> (\<exists>t\<in>set ts. t \<notin> snd ` set xs)"
  then have "set ts \<subseteq> snd ` set xs" by blast
  then have "card (set ts) \<le> card (snd ` set xs)" by (intro card_mono) simp_all
  also have "\<dots> \<le> card (set xs)" by (rule card_image_le) simp
  also have "\<dots> \<le> length xs" by (rule card_length)
  finally show False using assms by (simp add: distinct_card)
qed

lemma sync_loop_terminates:
  assumes "0 < cam_count" "increasing_feed cam_count fd"
    "distinct ts" "length ts = 100" "\<forall>t\<in>set ts. yields cam_count fd t"
  shows "\<exists>fuel s. sync_loop fuel fd cam_count (init_sync cam_count) = Some (Inr s)"
proof -
  have "\<forall>t\<in>set ts. \<exists>f. \<forall>i<cam_count. \<exists>b. fd (i * 2) (f i) = Some b \<and> timestamp b = t"
  proof
    fix t assume "t \<in> set ts"
    with assms(5) have "\<forall>i. \<exists>k. i < cam_count \<longrightarrow> (\<exists>b. fd (i * 2) k = Some b \<and> timestamp b = t)"
      unfolding yields_def by blast
    from choice[OF this] show "\<exists>f. \<forall>i<cam_count. \<exists>b. fd (i * 2) (f i) = Some b \<and> timestamp b = t"
      by blast
  qed
  from bchoice[OF this] obtain F where
    F: "\<forall>t\<in>set ts. \<forall>i<cam_count. \<exists>b. fd (i * 2) (F t i) = Some b \<and> timestamp b = t"
    by blast
  define B where "B = (\<Sum>t\<in>set ts. \<Sum>i<cam_count. Suc (F t i))"
  from run_live[OF assms(2,5,1), of "Suc B"] obtain s where
    s: "passes (Suc B) fd cam_count (init_sync cam_count) = Inr s"
    "live_inv fd cam_count (set ts) s" "count_inv cam_count s"
    "complete_sets s < 100 \<longrightarrow> Suc B \<le> polls cam_count s"
    by blast
  have "\<not> complete_sets s < 100"
  proof
    assume lt: "complete_sets s < 100"
    then have "unat (complete_sets s) < 100" by (simp add: word_less_nat_alt)
    with s(3) have "length (log_lines s) < length ts"
      using assms(4) by (simp add: count_inv_def)
    from missing_timestamp[OF assms(3) this] obtain t where
      t: "t \<in> set ts" "t \<notin> snd ` set (log_lines s)" by blast
    from F t(1) have "\<forall>i<cam_count. \<exists>b. fd (i * 2) (F t i) = Some b \<and> timestamp b = t" by blast
    from polls_bound[OF s(2) t this] have "polls cam_count s \<le> (\<Sum>i<cam_count. Suc (F t i))" .
    also have "\<dots> \<le> B"
      unfolding B_def using t(1) by (intro member_le_sum) simp_all
    finally show False using s(4) lt by simp
  qed
  then have "sync_loop (Suc B) fd cam_count (init_sync cam_count) = Some (Inr s)"
    using s(1) by (simp add: sync_loop_passes)
  then show ?thesis by blast
qed

lemma grid_timestamp_less:
  assumes "k < k'" "k' < 100"
  shows "(of_nat (100 * k + 100) :: 64 word) < of_nat (100 * k' + 100)"
proof -
  have u: "unat (of_nat n :: 64 word) = n" if "n < 2 ^ 64" for n
    unfolding unat_of_nat using that by simp
  have b: "100 * k + 100 < (2::nat) ^ 64" "100 * k' + 100 < (2::nat) ^ 64"
    using assms by simp_all
  have "100 * k + 100 < 100 * k' + 100" using assms(1) by simp
  then show ?thesis
    unfolding word_less_nat_alt u[OF b(1)] u[OF b(2)] .
qed

lemma grid_sorted:
  "sorted_wrt (<) (map (\<lambda>k. of_nat (100 * k + 100) :: 64 word) [0..<100])"
  unfolding sorted_wrt_map
proof (rule sorted_wrt_mono_rel[OF _ sorted_wrt_upt])
  fix x y :: nat
  assume "x \<in> set [0..<100]" "y \<in> set [0..<100]" "x < y"
  then have "x < y" "y < 100" by simp_all
  then show "(of_nat (100 * x + 100) :: 64 word) < of_nat (100 * y + 100)"
    by (rule grid_timestamp_less)
qed

lemma grid_increasing: "increasing_feed 2 (list_feed grid_frames)"
proof (rule increasing_list_feed, intro allI impI)
  fix i :: nat
  have "map timestamp (grid_frames (i * 2)) = map (\<lambda>k. of_nat (100 * k + 100) :: 64 word) [0..<100]"
    by (simp add: grid_frames_def comp_def)
  then show "sorted_wrt (<) (map timestamp (grid_frames (i * 2)))"
    by (simp only: grid_sorted)
qed

lemma grid_distinct: "distinct (map (\<lambda>k. of_nat (100 * k + 100) :: 64 word) [0..<100])"
  using grid_sorted[unfolded strict_sorted_iff] by (rule conjunct2)

lemma grid_yields:
  "\<forall>t\<in>set (map (\<lambda>k. of_nat (100 * k + 100) :: 64 word) [0..<100]). yields 2 (list_feed grid_frames) t"
proof
  fix t :: "64 word"
  assume "t \<in> set (map (\<lambda>k. of_nat (100 * k + 100)) [0..<100])"
  then obtain k where k: "k < 100" "t = of_nat (100 * k + 100)" by auto
  show "yields 2 (list_feed grid_frames) t"
    unfolding yields_def
  proof (intro allI impI)
    fix i :: nat
    have "list_feed grid_frames (i * 2) k = Some (grid_frames (i * 2) ! k)"
      using k(1) by (simp add: list_feed_def grid_frames_def)
    moreover have "timestamp (grid_frames (i * 2) ! k) = t"
      using k by (simp add: grid_frames_def)
    ultimately show "\<exists>k b. list_feed grid_frames (i * 2) k = Some b \<and> timestamp b = t"
      by blast
  qed
qed

lemma startup_ok_grid: "startup_ok 2 grid_env"
  by (simp add: startup_ok_def grid_env_def demo_env_def)

lemma dq_feed_grid: "dq_feed grid_env = list_feed grid_frames"
  by (simp add: grid_env_def)


lemma taken_Suc:
  "taken fd q (Suc n) = taken fd q n @ filter (\<lambda>h. h \<noteq> None) [fd q n]"
  by (simp add: taken_def)

lemma filled_nth_odd:
  assumes "wf_sync cam_count s" "i < cam_count"
  shows "frame_queues (filled fd cam_count s) ! Suc (i * 2) = frame_queues s ! Suc (i * 2)"
  using filled_nth(3)[OF assms] by simp

lemma recycled_nth_odd:
  assumes "wf_sync cam_count s" "i < cam_count"
  shows "frame_queues (recycled m cam_count s) ! Suc (i * 2) =
           (if timestamp (the (current_frames s ! i)) \<noteq> m
            then (frame_queues s ! Suc (i * 2))
                   \<lparr>enqueued := enqueued (frame_queues s ! Suc (i * 2)) @ [current_frames s ! i]\<rparr>
            else frame_queues s ! Suc (i * 2))"
  using recycled_nth(3)[OF assms] by simp

lemma emit_nth_odd:
  assumes "wf_sync cam_count s" "i < cam_count"
  shows "frame_queues (emit cam_count m s) ! Suc (i * 2) =
           (frame_queues s ! Suc (i * 2))
             \<lparr>enqueued := enqueued (frame_queues s ! Suc (i * 2)) @ [current_frames s ! i]\<rparr>"
  using emit_nth(3)[OF assms] by simp

lemma conserved_init: "conserved fd cam_count (init_sync cam_count)"
  by (simp add: conserved_def wf_init_sync) (auto simp add: init_sync_def taken_def)

lemma conserved_filled:
  assumes "conserved fd cam_count s"
  shows "conserved fd cam_count (filled fd cam_count s)"
proof -
  have wf: "wf_sync cam_count s" using assms by (simp add: conserved_def)
  have "taken fd (i * 2) (polled (frame_queues (filled fd cam_count s) ! (i * 2))) =
          enqueued (frame_queues (filled fd cam_count s) ! (i * 2 + 1)) @
          filter (\<lambda>h. h \<noteq> None) [current_frames (filled fd cam_count s) ! i]"
    if "i < cam_count" for i
  proof -
    from assms that have old: "taken fd (i * 2) (polled (frame_queues s ! (i * 2))) =
          enqueued (frame_queues s ! (i * 2 + 1)) @ filter (\<lambda>h. h \<noteq> None) [current_frames s ! i]"
      unfolding conserved_def by blast
    show ?thesis
    proof (cases "current_frames s ! i = None")
      case True
      then show ?thesis using old
        by (simp add: filled_nth[OF wf that] filled_nth_odd[OF wf that] taken_Suc)
    next
      case False
      then show ?thesis using old
        by (auto simp add: filled_nth[OF wf that] filled_nth_odd[OF wf that])
    qed
  qed
  then show ?thesis unfolding conserved_def using wf_filled[OF wf] by blast
qed

lemma conserved_recycled:
  assumes "conserved fd cam_count s" "full_slots cam_count s"
  shows "conserved fd cam_count (recycled m cam_count s)"
proof -
  have wf: "wf_sync cam_count s" using assms by (simp add: conserved_def)
  have "taken fd (i * 2) (polled (frame_queues (recycled m cam_count s) ! (i * 2))) =
          enqueued (frame_queues (recycled m cam_count s) ! (i * 2 + 1)) @
          filter (\<lambda>h. h \<noteq> None) [current_frames (recycled m cam_count s) ! i]"
    if "i < cam_count" for i
  proof -
    from assms that have old: "taken fd (i * 2) (polled (frame_queues s ! (i * 2))) =
          enqueued (frame_queues s ! (i * 2 + 1)) @ filter (\<lambda>h. h \<noteq> None) [current_frames s ! i]"
      unfolding conserved_def by blast
    from assms(2) that have "current_frames s ! i \<noteq> None" by (simp add: full_slots_def)
    then show ?thesis using old
      by (auto simp add: recycled_nth[OF wf that] recycled_nth_odd[OF wf that])
  qed
  then show ?thesis unfolding conserved_def using wf_recycled[OF wf] by blast
qed

lemma conserved_emit:
  assumes "conserved fd cam_count s" "full_slots cam_count s"
  shows "conserved fd cam_count (emit cam_count m s)"
proof -
  have wf: "wf_sync cam_count s" using assms by (simp add: conserved_def)
  have "taken fd (i * 2) (polled (frame_queues (emit cam_count m s) ! (i * 2))) =
          enqueued (frame_queues (emit cam_count m s) ! (i * 2 + 1)) @
          filter (\<lambda>h. h \<noteq> None) [current_frames (emit cam_count m s) ! i]"
    if "i < cam_count" for i
  proof -
    from assms that have old: "taken fd (i * 2) (polled (frame_queues s ! (i * 2))) =
          enqueued (frame_queues s ! (i * 2 + 1)) @ filter (\<lambda>h. h \<noteq> None) [current_frames s ! i]"
      unfolding conserved_def by blast
    from assms(2) that have "current_frames s ! i \<noteq> None" by (simp add: full_slots_def)
    then show ?thesis using old
      by (auto simp add: emit_nth[OF wf that] emit_nth_odd[OF wf that])
  qed
  then show ?thesis unfolding conserved_def using wf_emit[OF wf] by blast
qed

lemma conserved_loop_body:
  assumes "conserved fd cam_count s"
  shows "\<exists>s'. loop_body fd cam_count s = Inr s' \<and> conserved fd cam_count s'"
proof -
  have wf: "wf_sync cam_count s" using assms by (simp add: conserved_def)
  from wf show ?thesis
  proof (cases rule: loop_body_cases[where fd = fd])
    case incomplete
    then show ?thesis using conserved_filled[OF assms] by simp
  next
    case (recycle m)
    then show ?thesis using conserved_recycled[OF conserved_filled[OF assms] recycle(1)] by simp
  next
    case (emit m)
    then show ?thesis using conserved_emit[OF conserved_filled[OF assms] emit(1)] by simp
  qed
qed

lemma conserved_passes:
  "conserved fd cam_count s \<Longrightarrow>
     \<exists>s'. passes n fd cam_count s = Inr s' \<and> conserved fd cam_count s'"
proof (induction n arbitrary: s)
  case 0
  then show ?case by simp
next
  case (Suc n)
  show ?case
  proof (cases "complete_sets s < 100")
    case False
    then show ?thesis using Suc.prems by simp
  next
    case True
    from conserved_loop_body[OF Suc.prems] obtain s1 where
      s1: "loop_body fd cam_count s = Inr s1" "conserved fd cam_count s1" by blast
    from Suc.IH[OF s1(2)] show ?thesis using True s1(1) by simp
  qed
qed

text \<open>
  In lockstep the loop is still running after fewer than 100 passes; and what the loop
  hands back at its exit.
\<close>

lemma lock_spin:
  assumes "in_lockstep cam_count fd grid" "0 < cam_count"
  shows "lock_inv cam_count k s \<Longrightarrow> k + j < 100 \<Longrightarrow> sync_loop j fd cam_count s = None"
proof (induction j arbitrary: k s)
  case 0
  then have k: "k < 100" by simp
  have "complete_sets s = of_nat k" using 0(1) by (simp add: lock_inv_def)
  then have "unat (complete_sets s) = k" using k by (simp add: unat_of_nat)
  then have "complete_sets s < 100" using k by (simp add: word_less_nat_alt)
  then show ?case by simp
next
  case (Suc j)
  then have k: "k < 100" by simp
  have "complete_sets s = of_nat k" using Suc.prems(1) by (simp add: lock_inv_def)
  then have "unat (complete_sets s) = k" using k by (simp add: unat_of_nat)
  then have lt: "complete_sets s < 100" using k by (simp add: word_less_nat_alt)
  from lock_step[OF assms Suc.prems(1)] obtain s1 where
    s1: "loop_body fd cam_count s = Inr s1" "lock_inv cam_count (Suc k) s1" by blast
  from Suc.prems(2) have "Suc k + j < 100" by simp
  from Suc.IH[OF s1(2) this] show ?case using lt s1(1) by simp
qed

lemma sync_loop_conserved:
  assumes "sync_loop fuel fd cam_count (init_sync cam_count) = Some (Inr s)"
  shows "conserved fd cam_count s"
proof -
  from conserved_passes[OF conserved_init, of fuel fd cam_count] obtain s' where
    s': "passes fuel fd cam_count (init_sync cam_count) = Inr s'" "conserved fd cam_count s'"
    by blast
  from assms s'(1) have "s' = s"
    by (simp add: sync_loop_passes split: if_splits)
  with s'(2) show ?thesis by simp
qed

lemma taken_all:
  assumes "\<forall>k<n. fd q k \<noteq> None"
  shows "taken fd q n = map (fd q) [0..<n]"
  unfolding taken_def using assms by (intro filter_True) auto

text \<open>
  Arrival schedules: what a filled queue that delivers a list of frames returns, and the
  two feeds used to run the definitions.
\<close>

lemma taken_mem: "Some b \<in> set (taken fd q n) \<longleftrightarrow> (\<exists>k<n. fd q k = Some b)"
proof
  assume "Some b \<in> set (taken fd q n)"
  then show "\<exists>k<n. fd q k = Some b" unfolding taken_def by auto
next
  assume "\<exists>k<n. fd q k = Some b"
  then obtain k where k: "k < n" "fd q k = Some b" by blast
  from k(1) have "k \<in> set [0..<n]" by simp
  then have "fd q k \<in> fd q ` set [0..<n]" by (rule imageI)
  with k(2) show "Some b \<in> set (taken fd q n)" unfolding taken_def by simp
qed

lemma taken_append:
  assumes "n \<le> n'"
  shows "taken fd q n' = taken fd q n @ filter (\<lambda>h. h \<noteq> None) (map (fd q) [n..<n'])"
proof -
  from assms obtain d where d: "n' = n + d" using le_Suc_ex by blast
  have "[0..<n + d] = [0..<n] @ [n..<n + d]" by (rule upt_add_eq_append) simp
  then show ?thesis unfolding taken_def d by simp
qed

lemma delivers_mem:
  assumes "delivers fd q xs"
  shows "(\<exists>k. fd q k = Some b) \<longleftrightarrow> b \<in> set xs"
proof
  assume "\<exists>k. fd q k = Some b"
  then obtain k where "fd q k = Some b" ..
  then have "Some b \<in> set (taken fd q (Suc k))" unfolding taken_mem by blast
  moreover from assms obtain j where "taken fd q (Suc k) = map Some (take j xs)"
    unfolding delivers_def by blast
  ultimately have "b \<in> set (take j xs)" by auto
  then show "b \<in> set xs" by (rule in_set_takeD)
next
  assume b: "b \<in> set xs"
  from assms obtain n where "taken fd q n = map Some xs" unfolding delivers_def by blast
  with b have "Some b \<in> set (taken fd q n)" by simp
  then show "\<exists>k. fd q k = Some b" unfolding taken_mem by blast
qed

lemma delivers_increasing:
  assumes "delivers fd q xs" "sorted_wrt (<) (map timestamp xs)"
    "k < k'" "fd q k = Some a" "fd q k' = Some b"
  shows "timestamp a < timestamp b"
proof -
  let ?A = "taken fd q (Suc k)"
  let ?B = "filter (\<lambda>h. h \<noteq> None) (map (fd q) [Suc k..<Suc k'])"
  have split: "taken fd q (Suc k') = ?A @ ?B" using assms(3) by (intro taken_append) simp
  have a: "Some a \<in> set ?A" unfolding taken_mem using assms(4) by blast
  have "k' \<in> set [Suc k..<Suc k']" using assms(3) by simp
  then have "fd q k' \<in> fd q ` set [Suc k..<Suc k']" by (rule imageI)
  then have b: "Some b \<in> set ?B" using assms(5) by simp
  from assms(1) obtain j where j: "taken fd q (Suc k') = map Some (take j xs)"
    unfolding delivers_def by blast
  have "sorted_wrt (<) (take j (map timestamp xs))" using assms(2) by (rule sorted_wrt_take)
  then have "sorted_wrt (<) (map timestamp (take j xs))" by (simp add: take_map)
  then have "sorted_wrt (\<lambda>x y. timestamp (the x) < timestamp (the y)) (map Some (take j xs))"
    by (simp add: sorted_wrt_map)
  then have "sorted_wrt (\<lambda>x y. timestamp (the x) < timestamp (the y)) (?A @ ?B)"
    using split j by simp
  then have "\<forall>x\<in>set ?A. \<forall>y\<in>set ?B. timestamp (the x) < timestamp (the y)"
    unfolding sorted_wrt_append by blast
  from this[rule_format, OF a b] show ?thesis by simp
qed

lemma taken_list_feed: "taken (list_feed frames) q n = map Some (take n (frames q))"
proof (induction n)
  case 0
  show ?case by (simp add: taken_def)
next
  case (Suc n)
  show ?case
  proof (cases "n < length (frames q)")
    case True
    then show ?thesis using Suc
      by (simp add: taken_Suc list_feed_def take_Suc_conv_app_nth)
  next
    case False
    then show ?thesis using Suc by (simp add: taken_Suc list_feed_def)
  qed
qed

lemma delivers_list_feed: "delivers (list_feed frames) q (frames q)"
  unfolding delivers_def taken_list_feed
  by (intro conjI allI exI[of _ "length (frames q)"] exI[of _ n for n]) simp_all

lemma taken_spaced_feed:
  "taken (spaced_feed frames) q n = taken (list_feed frames) q (n div 2)"
proof (induction n)
  case 0
  show ?case by (simp add: taken_def)
next
  case (Suc n)
  show ?case
  proof (cases "even n")
    case True
    then show ?thesis using Suc by (simp add: taken_Suc spaced_feed_def)
  next
    case False
    then have "Suc n div 2 = Suc (n div 2)" by presburger
    then show ?thesis using Suc False by (simp add: taken_Suc spaced_feed_def)
  qed
qed

lemma delivers_spaced_feed: "delivers (spaced_feed frames) q (frames q)"
  unfolding delivers_def taken_spaced_feed taken_list_feed
proof (intro conjI allI)
  fix n show "\<exists>k. map Some (take (n div 2) (frames q)) = map Some (take k (frames q))" by blast
next
  have "take (2 * length (frames q) div 2) (frames q) = frames q" by simp
  then show "\<exists>n. map Some (take (n div 2) (frames q)) = map Some (frames q)"
    by (intro exI[of _ "2 * length (frames q)"]) simp
qed


text \<open>The invariant of the log is kept by every pass.\<close>

lemma logged_inv_init: "logged_inv fd cam_count (init_sync cam_count)"
  by (simp add: logged_inv_def wf_init_sync) (simp add: init_sync_def)

lemma logged_inv_filled:
  assumes "logged_inv fd cam_count s"
  shows "logged_inv fd cam_count (filled fd cam_count s)"
proof -
  let ?s1 = "filled fd cam_count s"
  have wf: "wf_sync cam_count s" using assms by (simp add: logged_inv_def)
  have e: "enqueued (frame_queues ?s1 ! (i * 2)) = []" if "i < cam_count" for i
    using assms that by (simp add: filled_nth[OF wf that] logged_inv_def)
  have p: "polled (frame_queues s ! (i * 2)) \<le> polled (frame_queues ?s1 ! (i * 2))"
    if "i < cam_count" for i
    using that by (simp add: filled_nth[OF wf that])
  have l: "yields cam_count fd t \<and>
        (\<forall>i<cam_count. \<forall>k b. fd (i * 2) k = Some b \<longrightarrow> timestamp b = t \<longrightarrow>
           k < polled (frame_queues ?s1 ! (i * 2)))"
    if "t \<in> snd ` set (log_lines s)" for t
  proof (intro conjI allI impI)
    from assms that show "yields cam_count fd t" unfolding logged_inv_def by blast
  next
    fix i k b assume h: "i < cam_count" "fd (i * 2) k = Some b" "timestamp b = t"
    from assms that h have "k < polled (frame_queues s ! (i * 2))"
      unfolding logged_inv_def by blast
    with p[OF h(1)] show "k < polled (frame_queues ?s1 ! (i * 2))" by simp
  qed
  show ?thesis
    unfolding logged_inv_def filled_same
    using assms wf_filled[OF wf] e l by (simp add: logged_inv_def)
qed

lemma logged_inv_recycled:
  assumes "logged_inv fd cam_count s"
  shows "logged_inv fd cam_count (recycled m cam_count s)"
proof -
  have wf: "wf_sync cam_count s" using assms by (simp add: logged_inv_def)
  show ?thesis
    unfolding logged_inv_def recycled_same
    using assms wf_recycled[OF wf] by (simp add: logged_inv_def recycled_nth[OF wf])
qed

lemma logged_inv_emit:
  assumes "logged_inv fd cam_count s" "live_inv fd cam_count common s"
    "increasing_feed cam_count fd" "full_slots cam_count s"
    "\<forall>i<cam_count. timestamp (the (current_frames s ! i)) = m"
  shows "logged_inv fd cam_count (emit cam_count m s)"
proof -
  let ?s3 = "emit cam_count m s"
  have wf: "wf_sync cam_count s" using assms(1) by (simp add: logged_inv_def)
  have cs: "complete_sets s = of_nat (length (log_lines s))"
    and fs: "map fst (log_lines s) = map of_nat [0..<length (log_lines s)]"
    using assms(1) by (simp_all add: logged_inv_def)
  have held: "\<exists>b. current_frames s ! i = Some b \<and> timestamp b = m \<and>
           0 < polled (frame_queues s ! (i * 2)) \<and>
           fd (i * 2) (polled (frame_queues s ! (i * 2)) - 1) = Some b"
    if "i < cam_count" for i
  proof -
    from assms(4) that obtain b where b: "current_frames s ! i = Some b"
      unfolding full_slots_def by blast
    with assms(5) that have "timestamp b = m" by force
    moreover from assms(2) that b have "0 < polled (frame_queues s ! (i * 2)) \<and>
           fd (i * 2) (polled (frame_queues s ! (i * 2)) - 1) = Some b"
      unfolding live_inv_def by blast
    ultimately show ?thesis using b by blast
  qed
  have ym: "yields cam_count fd m"
    unfolding yields_def using held by blast
  have pm: "k < polled (frame_queues s ! (i * 2))"
    if "i < cam_count" "fd (i * 2) k = Some b" "timestamp b = m" for i k b
  proof (rule ccontr)
    assume "\<not> k < polled (frame_queues s ! (i * 2))"
    moreover from held[OF that(1)] obtain c where c: "timestamp c = m"
      "0 < polled (frame_queues s ! (i * 2))"
      "fd (i * 2) (polled (frame_queues s ! (i * 2)) - 1) = Some c" by blast
    ultimately have "polled (frame_queues s ! (i * 2)) - 1 < k" by simp
    with assms(3) that(1,2) c(3) have "timestamp c < timestamp b"
      unfolding increasing_feed_def by blast
    with c(1) that(3) show False by simp
  qed
  have l: "yields cam_count fd t \<and>
        (\<forall>i<cam_count. \<forall>k b. fd (i * 2) k = Some b \<longrightarrow> timestamp b = t \<longrightarrow>
           k < polled (frame_queues s ! (i * 2)))"
    if "t \<in> snd ` set (log_lines s) \<or> t = m" for t
    using that
  proof
    assume "t \<in> snd ` set (log_lines s)"
    with assms(1) show ?thesis unfolding logged_inv_def by blast
  next
    assume "t = m"
    with ym pm show ?thesis by blast
  qed
  have c3: "complete_sets ?s3 = of_nat (length (log_lines ?s3))"
    by (simp add: emit_same[OF wf] cs)
  have f3: "map fst (log_lines ?s3) = map of_nat [0..<length (log_lines ?s3)]"
    by (simp add: emit_same[OF wf] cs fs)
  have e3: "\<forall>i<cam_count. enqueued (frame_queues ?s3 ! (i * 2)) = []"
    using assms(1) by (simp add: emit_nth[OF wf] logged_inv_def)
  have l3: "\<forall>t\<in>snd ` set (log_lines ?s3). yields cam_count fd t \<and>
        (\<forall>i<cam_count. \<forall>k b. fd (i * 2) k = Some b \<longrightarrow> timestamp b = t \<longrightarrow>
           k < polled (frame_queues ?s3 ! (i * 2)))"
  proof
    fix t assume "t \<in> snd ` set (log_lines ?s3)"
    then have "t \<in> snd ` set (log_lines s) \<or> t = m" by (auto simp add: emit_same[OF wf])
    from l[OF this] show "yields cam_count fd t \<and>
        (\<forall>i<cam_count. \<forall>k b. fd (i * 2) k = Some b \<longrightarrow> timestamp b = t \<longrightarrow>
           k < polled (frame_queues ?s3 ! (i * 2)))"
      by (simp add: emit_nth[OF wf])
  qed
  show ?thesis
    unfolding logged_inv_def by (intro conjI wf_emit[OF wf] c3 f3 e3 l3)
qed

lemma logged_inv_loop_body:
  assumes "logged_inv fd cam_count s" "live_inv fd cam_count common s"
    "increasing_feed cam_count fd"
  shows "\<exists>s'. loop_body fd cam_count s = Inr s' \<and> logged_inv fd cam_count s'"
proof -
  have wf: "wf_sync cam_count s" using assms(1) by (simp add: logged_inv_def)
  note l1 = logged_inv_filled[OF assms(1)]
  from wf show ?thesis
  proof (cases rule: loop_body_cases[where fd = fd])
    case incomplete
    then show ?thesis using l1 by simp
  next
    case (recycle m)
    then show ?thesis using logged_inv_recycled[OF l1] by simp
  next
    case (emit m)
    then show ?thesis
      using logged_inv_emit[OF l1 live_inv_filled[OF assms(2)] assms(3) emit(1,3)] by simp
  qed
qed


text \<open>
  The loop logs the common timestamps from the smallest on, and when fewer than 100
  timestamps are common to all cameras it logs all of them and keeps polling.
\<close>

lemma log_downward:
  assumes "live_inv fd cam_count common s" "logged_inv fd cam_count s"
    "increasing_feed cam_count fd" "0 < cam_count" "\<forall>t\<in>common. yields cam_count fd t"
    "t \<in> snd ` set (log_lines s)" "t' \<in> common" "t' < t"
  shows "t' \<in> snd ` set (log_lines s)"
proof (rule ccontr)
  assume n: "t' \<notin> snd ` set (log_lines s)"
  from assms(5,7,4) obtain k' b' where b': "fd (0 * 2) k' = Some b'" "timestamp b' = t'"
    unfolding yields_def by blast
  from assms(2,6) have "yields cam_count fd t" unfolding logged_inv_def by blast
  with assms(4) obtain k b where b: "fd (0 * 2) k = Some b" "timestamp b = t"
    unfolding yields_def by blast
  from assms(2,6,4) b have kp: "k < polled (frame_queues s ! (0 * 2))"
    unfolding logged_inv_def by blast
  have "k' < k"
  proof (rule ccontr)
    assume "\<not> k' < k"
    then have "k = k' \<or> k < k'" by auto
    then show False
    proof
      assume "k = k'"
      with b b' assms(8) show False by simp
    next
      assume "k < k'"
      with assms(3,4) b(1) b'(1) have "timestamp b < timestamp b'"
        unfolding increasing_feed_def by blast
      with b(2) b'(2) assms(8) show False by simp
    qed
  qed
  from assms(1,7) n assms(4) b'
  have "polled (frame_queues s ! (0 * 2)) \<le> k' \<or>
        (current_frames s ! 0 = Some b' \<and> polled (frame_queues s ! (0 * 2)) = Suc k')"
    unfolding live_inv_def by blast
  with kp \<open>k' < k\<close> show False by auto
qed

lemma run_logged:
  assumes "increasing_feed cam_count fd" "0 < cam_count"
  shows "\<exists>s. passes n fd cam_count (init_sync cam_count) = Inr s \<and> logged_inv fd cam_count s"
proof (induction n)
  case 0
  show ?case by (simp add: logged_inv_init)
next
  case (Suc n)
  then obtain s where s: "passes n fd cam_count (init_sync cam_count) = Inr s"
    "logged_inv fd cam_count s" by blast
  have "\<forall>t\<in>{}. yields cam_count fd t" by simp
  from run_live[OF assms(1) this assms(2), of n] s(1)
  have lv: "live_inv fd cam_count {} s" by auto
  from logged_inv_loop_body[OF s(2) lv assms(1)] obtain s' where
    s': "loop_body fd cam_count s = Inr s'" "logged_inv fd cam_count s'" by blast
  show ?case
  proof (cases "complete_sets s < 100")
    case True
    with s(1) s' show ?thesis by (simp add: passes_Suc del: passes.simps)
  next
    case False
    with s show ?thesis by (simp add: passes_Suc del: passes.simps)
  qed
qed

lemma run_common:
  assumes "increasing_feed cam_count fd" "0 < cam_count" "finite common" "card common < 100"
    "\<forall>t. yields cam_count fd t \<longleftrightarrow> t \<in> common"
  shows "\<exists>s. passes n fd cam_count (init_sync cam_count) = Inr s \<and>
           live_inv fd cam_count common s \<and> mono_inv fd cam_count s \<and>
           conserved fd cam_count s \<and> logged_inv fd cam_count s \<and>
           snd ` set (log_lines s) \<subseteq> common \<and> length (log_lines s) \<le> card common \<and>
           n \<le> polls cam_count s"
proof -
  have yl: "\<forall>t\<in>common. yields cam_count fd t" using assms(5) by simp
  from run_live[OF assms(1) yl assms(2), of n] obtain s where
    s: "passes n fd cam_count (init_sync cam_count) = Inr s"
    "live_inv fd cam_count common s" "count_inv cam_count s"
    "complete_sets s < 100 \<longrightarrow> n \<le> polls cam_count s"
    by blast
  from mono_inv_passes[OF assms(1,2) mono_inv_init, of n] s(1)
  have mn: "mono_inv fd cam_count s" by auto
  from conserved_passes[OF conserved_init, of n fd cam_count] s(1)
  have cn: "conserved fd cam_count s" by auto
  from run_logged[OF assms(1,2), of n] s(1)
  have lg: "logged_inv fd cam_count s" by auto
  have sub: "snd ` set (log_lines s) \<subseteq> common"
    using lg assms(5) unfolding logged_inv_def by blast
  from mn have "sorted_wrt (<) (map snd (log_lines s))" by (simp add: mono_inv_def)
  then have "distinct (map snd (log_lines s))" by (simp add: strict_sorted_iff)
  then have "card (set (map snd (log_lines s))) = length (map snd (log_lines s))"
    by (rule distinct_card)
  then have "length (log_lines s) = card (snd ` set (log_lines s))" by simp
  also have "\<dots> \<le> card common" by (rule card_mono[OF assms(3) sub])
  finally have len: "length (log_lines s) \<le> card common" .
  with assms(4) have "length (log_lines s) < 100" by simp
  with s(3) have "unat (complete_sets s) < 100" by (simp add: count_inv_def)
  then have "complete_sets s < 100" by (simp add: word_less_nat_alt)
  with s(4) have "n \<le> polls cam_count s" by simp
  with s(1,2) mn cn lg sub len show ?thesis by blast
qed

lemma run_complete:
  assumes "increasing_feed cam_count fd" "0 < cam_count" "finite common" "card common < 100"
    "\<forall>t. yields cam_count fd t \<longleftrightarrow> t \<in> common"
  shows "\<exists>N. \<forall>n\<ge>N. \<exists>s. passes n fd cam_count (init_sync cam_count) = Inr s \<and>
           snd ` set (log_lines s) = common"
proof -
  have "\<forall>t\<in>common. \<exists>f. \<forall>i<cam_count. \<exists>b. fd (i * 2) (f i) = Some b \<and> timestamp b = t"
  proof
    fix t assume "t \<in> common"
    with assms(5) have "\<forall>i. \<exists>k. i < cam_count \<longrightarrow> (\<exists>b. fd (i * 2) k = Some b \<and> timestamp b = t)"
      unfolding yields_def by blast
    from choice[OF this] show "\<exists>f. \<forall>i<cam_count. \<exists>b. fd (i * 2) (f i) = Some b \<and> timestamp b = t"
      by blast
  qed
  from bchoice[OF this] obtain F where
    F: "\<forall>t\<in>common. \<forall>i<cam_count. \<exists>b. fd (i * 2) (F t i) = Some b \<and> timestamp b = t"
    by blast
  define B where "B = (\<Sum>t\<in>common. \<Sum>i<cam_count. Suc (F t i))"
  have "\<exists>s. passes n fd cam_count (init_sync cam_count) = Inr s \<and>
           snd ` set (log_lines s) = common" if n: "Suc B \<le> n" for n
  proof -
    from run_common[OF assms, of n] obtain s where
      s: "passes n fd cam_count (init_sync cam_count) = Inr s"
      "live_inv fd cam_count common s" "snd ` set (log_lines s) \<subseteq> common"
      "n \<le> polls cam_count s" by blast
    have "common \<subseteq> snd ` set (log_lines s)"
    proof
      fix t assume t: "t \<in> common"
      show "t \<in> snd ` set (log_lines s)"
      proof (rule ccontr)
        assume nt: "t \<notin> snd ` set (log_lines s)"
        from F t have "\<forall>i<cam_count. \<exists>b. fd (i * 2) (F t i) = Some b \<and> timestamp b = t" by blast
        from polls_bound[OF s(2) t nt this]
        have "polls cam_count s \<le> (\<Sum>i<cam_count. Suc (F t i))" .
        also have "\<dots> \<le> B"
          unfolding B_def using t assms(3) by (intro member_le_sum) simp_all
        finally show False using s(4) n by simp
      qed
    qed
    with s(1,3) show ?thesis by blast
  qed
  then show ?thesis by blast
qed

lemma sorted_prefix3:
  fixes a b c :: "'a::linorder"
  assumes "sorted_wrt (<) L" "set L \<subseteq> {a, b, c}" "a < b" "b < c"
    "\<forall>t\<in>set L. \<forall>t'\<in>{a, b, c}. t' < t \<longrightarrow> t' \<in> set L"
  shows "\<exists>k. L = take k [a, b, c]"
proof -
  have ac: "a < c" using assms(3,4) by simp
  consider "set L = {}" | "set L = {a}" | "set L = {a, b}" | "set L = {a, b, c}"
  proof (cases "c \<in> set L")
    case True
    with assms(5) assms(4) ac have "a \<in> set L" "b \<in> set L" by blast+
    with True assms(2) have "set L = {a, b, c}" by blast
    then show ?thesis using that by blast
  next
    case c: False
    show ?thesis
    proof (cases "b \<in> set L")
      case True
      with assms(5) assms(3) have "a \<in> set L" by blast
      with True c assms(2) have "set L = {a, b}" by blast
      then show ?thesis using that by blast
    next
      case b: False
      show ?thesis
      proof (cases "a \<in> set L")
        case True
        with b c assms(2) have "set L = {a}" by blast
        then show ?thesis using that by blast
      next
        case False
        with b c assms(2) have "set L = {}" by (cases L) auto
        then show ?thesis using that by blast
      qed
    qed
  qed
  then show ?thesis
  proof cases
    case 1
    then have "L = take 0 [a, b, c]" by simp
    then show ?thesis by blast
  next
    case 2
    have "sorted_wrt (<) [a]" by simp
    from strict_sorted_equal[OF this assms(1)] 2 have "L = take 1 [a, b, c]" by simp
    then show ?thesis by blast
  next
    case 3
    have "sorted_wrt (<) [a, b]" using assms(3) by simp
    from strict_sorted_equal[OF this assms(1)] 3 have "L = take 2 [a, b, c]" by simp
    then show ?thesis by blast
  next
    case 4
    have "sorted_wrt (<) [a, b, c]" using assms(3,4) ac by simp
    from strict_sorted_equal[OF this assms(1)] 4 have "L = take 3 [a, b, c]" by simp
    then show ?thesis by blast
  qed
qed


text \<open>
  Two cameras with a lag of one frame, under any arrival schedule.
\<close>

lemma delivers_timestamp:
  assumes "delivers fd q xs"
  shows "(\<exists>k b. fd q k = Some b \<and> timestamp b = t) \<longleftrightarrow> t \<in> set (map timestamp xs)"
proof
  assume "\<exists>k b. fd q k = Some b \<and> timestamp b = t"
  then obtain k b where b: "fd q k = Some b" "timestamp b = t" by blast
  from b(1) have "b \<in> set xs" using delivers_mem[OF assms, of b] by blast
  with b(2) show "t \<in> set (map timestamp xs)" by auto
next
  assume "t \<in> set (map timestamp xs)"
  then obtain b where b: "b \<in> set xs" "timestamp b = t" by auto
  from b(1) obtain k where "fd q k = Some b" using delivers_mem[OF assms, of b] by blast
  with b(2) show "\<exists>k b. fd q k = Some b \<and> timestamp b = t" by blast
qed

lemma held_none:
  assumes "mono_inv fd cam_count s" "delivers fd (i * 2) xs" "i < cam_count"
    "t \<in> snd ` set (log_lines s)" "\<forall>x\<in>set xs. timestamp x \<le> t"
  shows "current_frames s ! i = None"
proof (rule ccontr)
  assume "current_frames s ! i \<noteq> None"
  then obtain b where b: "current_frames s ! i = Some b" by blast
  from assms(4) have t: "t \<in> set (map snd (log_lines s))" by simp
  from assms(1) t assms(3) b have lt: "t < timestamp b" unfolding mono_inv_def by blast
  from assms(1,3) b obtain k where "fd (i * 2) k = Some b" unfolding mono_inv_def by blast
  then have "b \<in> set xs" using delivers_mem[OF assms(2), of b] by blast
  with assms(5) have "timestamp b \<le> t" by blast
  with lt show False by simp
qed

lemma enqueued_all:
  assumes "conserved fd cam_count s" "logged_inv fd cam_count s" "delivers fd (i * 2) xs"
    "i < cam_count" "current_frames s ! i = None" "xs \<noteq> []" "distinct (map timestamp xs)"
    "timestamp (last xs) \<in> snd ` set (log_lines s)"
  shows "enqueued (frame_queues s ! (i * 2 + 1)) = map Some xs"
proof -
  let ?p = "polled (frame_queues s ! (i * 2))"
  from assms(1,4) have "taken fd (i * 2) ?p =
          enqueued (frame_queues s ! (i * 2 + 1)) @
          filter (\<lambda>h. h \<noteq> None) [current_frames s ! i]"
    unfolding conserved_def by blast
  with assms(5) have enq: "enqueued (frame_queues s ! (i * 2 + 1)) = taken fd (i * 2) ?p"
    by simp
  from assms(3) obtain j where j: "taken fd (i * 2) ?p = map Some (take j xs)"
    unfolding delivers_def by blast
  have dx: "distinct xs" using assms(7) by (simp add: distinct_map)
  from assms(6) have "last xs \<in> set xs" by simp
  then obtain k0 where k0: "fd (i * 2) k0 = Some (last xs)"
    using delivers_mem[OF assms(3), of "last xs"] by blast
  with assms(2,8,4) have "k0 < ?p" unfolding logged_inv_def by blast
  with k0 have "Some (last xs) \<in> set (taken fd (i * 2) ?p)" unfolding taken_mem by blast
  with j have "last xs \<in> set (take j xs)" by auto
  then obtain m where m: "m < length (take j xs)" "take j xs ! m = last xs"
    unfolding in_set_conv_nth by blast
  have "length xs \<le> j"
  proof (rule ccontr)
    assume "\<not> length xs \<le> j"
    then have jl: "j < length xs" by simp
    with m have mj: "m < j" and "xs ! m = last xs" by simp_all
    then have "xs ! m = xs ! (length xs - 1)" using assms(6) by (simp add: last_conv_nth)
    with dx mj jl have "m = length xs - 1" by (simp add: nth_eq_iff_index_eq)
    with mj jl show False by simp
  qed
  then have "take j xs = xs" by simp
  with enq j show ?thesis by simp
qed

lemma all_less_2: "(\<forall>i<2. P i) \<longleftrightarrow> P (0::nat) \<and> P 1"
proof
  assume a: "\<forall>i<2. P i"
  have "(0::nat) < 2" "(1::nat) < 2" by simp_all
  with a show "P 0 \<and> P 1" by blast
next
  assume a: "P 0 \<and> P 1"
  show "\<forall>i<2. P i"
  proof (intro allI impI)
    fix i :: nat assume "i < 2"
    then have "i = 0 \<or> i = 1" by auto
    with a show "P i" by auto
  qed
qed

lemma lag_increasing:
  assumes "map timestamp frames0 = [100, 200, 300, 400]"
    "map timestamp frames1 = [200, 300, 400]"
    "delivers fd 0 frames0" "delivers fd 2 frames1"
  shows "increasing_feed 2 fd"
proof -
  have s0: "sorted_wrt (<) (map timestamp frames0)" unfolding assms(1) by simp
  have s1: "sorted_wrt (<) (map timestamp frames1)" unfolding assms(2) by simp
  have "\<forall>k k' a b. k < k' \<longrightarrow> fd (i * 2) k = Some a \<longrightarrow> fd (i * 2) k' = Some b
        \<longrightarrow> timestamp a < timestamp b" if "i < 2" for i :: nat
  proof -
    from that have "i = 0 \<or> i = 1" by auto
    then show ?thesis
    proof
      assume "i = 0"
      then show ?thesis using delivers_increasing[OF assms(3) s0] by auto
    next
      assume "i = 1"
      then show ?thesis using delivers_increasing[OF assms(4) s1] by auto
    qed
  qed
  then show ?thesis unfolding increasing_feed_def by blast
qed

lemma lag_common:
  assumes "map timestamp frames0 = [100, 200, 300, 400]"
    "map timestamp frames1 = [200, 300, 400]"
    "delivers fd 0 frames0" "delivers fd 2 frames1"
  shows "yields 2 fd t \<longleftrightarrow> t \<in> {200, 300, 400}"
proof -
  have "yields 2 fd t \<longleftrightarrow>
      (\<exists>k b. fd 0 k = Some b \<and> timestamp b = t) \<and> (\<exists>k b. fd 2 k = Some b \<and> timestamp b = t)"
    unfolding yields_def all_less_2 by simp
  also have "\<dots> \<longleftrightarrow> t \<in> set (map timestamp frames0) \<and> t \<in> set (map timestamp frames1)"
    unfolding delivers_timestamp[OF assms(3)] delivers_timestamp[OF assms(4)] ..
  also have "\<dots> \<longleftrightarrow> t \<in> {200, 300, 400}"
    unfolding assms(1,2) by auto
  finally show ?thesis .
qed


lemma count_list_distinct: "distinct xs \<Longrightarrow> count_list xs x \<le> 1"
  by (induction xs) (auto simp: count_list_0_iff)

lemma lag_run:
  assumes "map timestamp frames0 = [100, 200, 300, 400]"
    "map timestamp frames1 = [200, 300, 400]"
    "delivers fd 0 frames0" "delivers fd 2 frames1"
  shows "\<exists>s. passes n fd 2 (init_sync 2) = Inr s \<and>
           live_inv fd 2 {200, 300, 400} s \<and> mono_inv fd 2 s \<and>
           conserved fd 2 s \<and> logged_inv fd 2 s \<and>
           snd ` set (log_lines s) \<subseteq> {200, 300, 400}"
proof -
  have inc: "increasing_feed 2 fd" by (rule lag_increasing[OF assms])
  have yl: "\<forall>t. yields 2 fd t \<longleftrightarrow> t \<in> {200, 300, 400}"
    using lag_common[OF assms] by blast
  have pos: "(0::nat) < 2" by simp
  have fin: "finite {200, 300, 400 :: 64 word}" by simp
  have "card {200, 300, 400 :: 64 word} = 3" by simp
  then have crd: "card {200, 300, 400 :: 64 word} < 100" by simp
  from run_common[OF inc pos fin crd yl, of n] show ?thesis by blast
qed

lemma lag_prefix:
  assumes "map timestamp frames0 = [100, 200, 300, 400]"
    "map timestamp frames1 = [200, 300, 400]"
    "delivers fd 0 frames0" "delivers fd 2 frames1"
  shows "\<exists>s k. passes n fd 2 (init_sync 2) = Inr s \<and>
      map snd (log_lines s) = take k [200, 300, 400] \<and>
      count_list (map (map_option timestamp) (enqueued (frame_queues s ! 1))) (Some 100) \<le> 1"
proof -
  have inc: "increasing_feed 2 fd" by (rule lag_increasing[OF assms])
  have yl: "\<forall>t\<in>{200, 300, 400}. yields 2 fd t"
    using lag_common[OF assms] by blast
  have pos: "(0::nat) < 2" by simp
  from lag_run[OF assms, of n] obtain s where
    s: "passes n fd 2 (init_sync 2) = Inr s"
    and lv: "live_inv fd 2 {200, 300, 400} s" and mn: "mono_inv fd 2 s"
    and cn: "conserved fd 2 s" and lg: "logged_inv fd 2 s"
    and sub: "snd ` set (log_lines s) \<subseteq> {200, 300, 400}" by blast
  let ?L = "map snd (log_lines s)"
  have srt: "sorted_wrt (<) ?L" using mn by (simp add: mono_inv_def)
  have sub': "set ?L \<subseteq> {200, 300, 400}" using sub by simp
  have down: "\<forall>t\<in>set ?L. \<forall>t'\<in>{200, 300, 400}. t' < t \<longrightarrow> t' \<in> set ?L"
  proof (intro ballI impI)
    fix t t' :: "64 word"
    assume "t \<in> set ?L" "t' \<in> {200, 300, 400}" "t' < t"
    then have "t \<in> snd ` set (log_lines s)" by simp
    from log_downward[OF lv lg inc pos yl this \<open>t' \<in> {200, 300, 400}\<close> \<open>t' < t\<close>]
    show "t' \<in> set ?L" by simp
  qed
  have lt: "(200 :: 64 word) < 300" "(300 :: 64 word) < 400" by simp_all
  from sorted_prefix3[OF srt sub' lt down] obtain k where k: "?L = take k [200, 300, 400]"
    by blast
  from cn pos have "taken fd (0 * 2) (polled (frame_queues s ! (0 * 2))) =
          enqueued (frame_queues s ! (0 * 2 + 1)) @
          filter (\<lambda>h. h \<noteq> None) [current_frames s ! 0]"
    unfolding conserved_def by blast
  then have tk: "taken fd 0 (polled (frame_queues s ! 0)) =
          enqueued (frame_queues s ! 1) @ filter (\<lambda>h. h \<noteq> None) [current_frames s ! 0]"
    by simp
  from assms(3) obtain j where
    j: "taken fd 0 (polled (frame_queues s ! 0)) = map Some (take j frames0)"
    unfolding delivers_def by blast
  have "map (map_option timestamp) (map Some (take j frames0)) =
        map Some (take j (map timestamp frames0))"
    by (simp add: take_map)
  then have "distinct (map (map_option timestamp) (map Some (take j frames0)))"
    unfolding assms(1) by (simp add: distinct_map)
  then have "distinct (map (map_option timestamp)
      (enqueued (frame_queues s ! 1) @ filter (\<lambda>h. h \<noteq> None) [current_frames s ! 0]))"
    unfolding tk[symmetric] j .
  then have "distinct (map (map_option timestamp) (enqueued (frame_queues s ! 1)))"
    by simp
  then have cnt: "count_list (map (map_option timestamp) (enqueued (frame_queues s ! 1))) (Some 100) \<le> 1"
    by (rule count_list_distinct)
  show ?thesis
    by (rule exI[of _ s], rule exI[of _ k]) (intro conjI s k cnt)
qed

lemma lag_final:
  assumes "map timestamp frames0 = [100, 200, 300, 400]"
    "map timestamp frames1 = [200, 300, 400]"
    "delivers fd 0 frames0" "delivers fd 2 frames1"
  shows "\<exists>N. \<forall>n\<ge>N. \<exists>s. passes n fd 2 (init_sync 2) = Inr s \<and>
        log_lines s = [(0, 200), (1, 300), (2, 400)] \<and>
        current_frames s = [None, None] \<and>
        enqueued (frame_queues s ! 0) = [] \<and>
        enqueued (frame_queues s ! 1) = map Some frames0 \<and>
        enqueued (frame_queues s ! 2) = [] \<and>
        enqueued (frame_queues s ! 3) = map Some frames1 \<and>
        count_list (map (map_option timestamp) (enqueued (frame_queues s ! 1))) (Some 100) = 1"
proof -
  have inc: "increasing_feed 2 fd" by (rule lag_increasing[OF assms])
  have yl: "\<forall>t. yields 2 fd t \<longleftrightarrow> t \<in> {200, 300, 400}"
    using lag_common[OF assms] by blast
  have pos: "(0::nat) < 2" and one: "(1::nat) < 2" by simp_all
  have fin: "finite {200, 300, 400 :: 64 word}" by simp
  have "card {200, 300, 400 :: 64 word} = 3" by simp
  then have crd: "card {200, 300, 400 :: 64 word} < 100" by simp
  from run_complete[OF inc pos fin crd yl] obtain N where
    N: "\<forall>n\<ge>N. \<exists>s. passes n fd 2 (init_sync 2) = Inr s \<and>
           snd ` set (log_lines s) = {200, 300, 400}" by blast
  have "\<exists>s. passes n fd 2 (init_sync 2) = Inr s \<and>
        log_lines s = [(0, 200), (1, 300), (2, 400)] \<and>
        current_frames s = [None, None] \<and>
        enqueued (frame_queues s ! 0) = [] \<and>
        enqueued (frame_queues s ! 1) = map Some frames0 \<and>
        enqueued (frame_queues s ! 2) = [] \<and>
        enqueued (frame_queues s ! 3) = map Some frames1 \<and>
        count_list (map (map_option timestamp) (enqueued (frame_queues s ! 1))) (Some 100) = 1"
    if n: "N \<le> n" for n
  proof -
    from N n obtain s where s: "passes n fd 2 (init_sync 2) = Inr s"
      and all: "snd ` set (log_lines s) = {200, 300, 400}" by blast
    from lag_run[OF assms, of n] s have mn: "mono_inv fd 2 s"
      and cn: "conserved fd 2 s" and lg: "logged_inv fd 2 s" by auto
    let ?L = "map snd (log_lines s)"
    have srt: "sorted_wrt (<) ?L" using mn by (simp add: mono_inv_def)
    have "sorted_wrt (<) [200, 300, 400 :: 64 word]" by simp
    moreover have "set ?L = set [200, 300, 400 :: 64 word]" using all by simp
    ultimately have L: "?L = [200, 300, 400]" using srt by (intro strict_sorted_equal)
    then have "length (map snd (log_lines s)) = 3" by simp
    then have len: "length (log_lines s) = 3" by simp
    have "[0..<3] = [0, 1, 2::nat]" by (simp add: upt_rec)
    then have "map fst (log_lines s) = [0, 1, 2]"
      using lg len by (simp add: logged_inv_def)
    with L have "zip (map fst (log_lines s)) (map snd (log_lines s)) =
        [(0, 200), (1, 300), (2, 400)]" by simp
    then have log: "log_lines s = [(0, 200), (1, 300), (2, 400)]"
      unfolding zip_map_fst_snd .
    have in4: "400 \<in> snd ` set (log_lines s)" using all by simp
    have d0: "delivers fd (0 * 2) frames0" using assms(3) by simp
    have d1: "delivers fd (1 * 2) frames1" using assms(4) by simp
    have b0: "\<forall>x\<in>set frames0. timestamp x \<le> 400"
    proof
      fix x assume "x \<in> set frames0"
      then have "timestamp x \<in> set (map timestamp frames0)" by simp
      then show "timestamp x \<le> 400" unfolding assms(1) by auto
    qed
    have b1: "\<forall>x\<in>set frames1. timestamp x \<le> 400"
    proof
      fix x assume "x \<in> set frames1"
      then have "timestamp x \<in> set (map timestamp frames1)" by simp
      then show "timestamp x \<le> 400" unfolding assms(2) by auto
    qed
    have c0: "current_frames s ! 0 = None" by (rule held_none[OF mn d0 pos in4 b0])
    have c1: "current_frames s ! 1 = None" by (rule held_none[OF mn d1 one in4 b1])
    have len2: "length (current_frames s) = 2" using lg by (simp add: logged_inv_def wf_sync_def)
    have cur: "current_frames s = [None, None]"
    proof (rule nth_equalityI)
      show "length (current_frames s) = length [None, None]" using len2 by simp
    next
      fix i assume "i < length (current_frames s)"
      with len2 have "i = 0 \<or> i = 1" by auto
      with c0 c1 show "current_frames s ! i = [None, None] ! i" by auto
    qed
    have ne0: "frames0 \<noteq> []" and ne1: "frames1 \<noteq> []" using assms(1,2) by auto
    have dt0: "distinct (map timestamp frames0)" unfolding assms(1) by simp
    have dt1: "distinct (map timestamp frames1)" unfolding assms(2) by simp
    have "last (map timestamp frames0) = 400" unfolding assms(1) by simp
    then have l0: "timestamp (last frames0) \<in> snd ` set (log_lines s)"
      using in4 ne0 by (simp add: last_map)
    have "last (map timestamp frames1) = 400" unfolding assms(2) by simp
    then have l1: "timestamp (last frames1) \<in> snd ` set (log_lines s)"
      using in4 ne1 by (simp add: last_map)
    from enqueued_all[OF cn lg d0 pos c0 ne0 dt0 l0]
    have e1: "enqueued (frame_queues s ! 1) = map Some frames0" by simp
    from enqueued_all[OF cn lg d1 one c1 ne1 dt1 l1]
    have e3: "enqueued (frame_queues s ! 3) = map Some frames1" by simp
    from lg have ev: "\<forall>i<2. enqueued (frame_queues s ! (i * 2)) = []"
      by (simp add: logged_inv_def)
    from ev[rule_format, OF pos] have e0: "enqueued (frame_queues s ! 0) = []" by simp
    from ev[rule_format, OF one] have e2: "enqueued (frame_queues s ! 2) = []" by simp
    have "map (map_option timestamp) (map Some frames0) = map Some (map timestamp frames0)"
      by simp
    then have cnt: "count_list (map (map_option timestamp) (enqueued (frame_queues s ! 1))) (Some 100) = 1"
      unfolding e1 assms(1) by simp
    show ?thesis
      by (rule exI[of _ s]) (intro conjI s log cur e0 e1 e2 e3 cnt)
  qed
  then show ?thesis by blast
qed


lemma s2_timestamps:
  "map timestamp (s2_frames 0) = [100, 200, 300, 400]"
  "map timestamp (s2_frames 2) = [200, 300, 400]"
  by (simp_all add: s2_frames_def)

lemma spaced_s2_gaps:
  "spaced_feed s2_frames 0 0 = None"
  "spaced_feed s2_frames 0 1 = Some \<lparr>timestamp = 100, frame_buf = 0\<rparr>"
  "spaced_feed s2_frames 0 2 = None"
  "spaced_feed s2_frames 0 3 = Some \<lparr>timestamp = 200, frame_buf = 4096\<rparr>"
  by code_simp+

lemma spaced_s2_passes_5:
  "case passes 5 (spaced_feed s2_frames) 2 (init_sync 2) of Inl e \<Rightarrow> False
   | Inr s \<Rightarrow> log_lines s = [(0, 200)] \<and> current_frames s = [None, None] \<and>
       enqueued (frame_queues s ! 1) =
         [Some \<lparr>timestamp = 100, frame_buf = 0\<rparr>, Some \<lparr>timestamp = 200, frame_buf = 4096\<rparr>]"
  by code_simp

section \<open>The claims\<close>

subsection \<open>C1: an emitted set has equal timestamps\<close>

text \<open>
  C1. Every aligned set the synchronizer emits has all its timestamps equal. A pass of the
  loop emits when it appends a log line and increments \<open>complete_sets\<close>. Whenever a pass
  does either, it went through lines 202 to 217: the fill loop left a full set \<open>s1\<close>, the
  alignment loop changed nothing and reported \<open>all_equal\<close>, the logged timestamp is the
  maximum \<open>t\<close>, and for every pair \<open>i\<close>, \<open>j\<close> of cameras the slots of \<open>s1\<close> hold
  frames with the same timestamp, which is \<open>t\<close>.
\<close>

theorem emitted_set_timestamps_equal:
  assumes "wf_sync cam_count s"
    and "loop_body fd cam_count s = Inr s'"
    and "log_lines s' \<noteq> log_lines s \<or> complete_sets s' \<noteq> complete_sets s"
  shows "\<exists>s1 t. fill_slots fd cam_count s = (s1, True) \<and> find_max cam_count s1 = Inr t \<and>
           align cam_count t s1 = Inr (s1, True) \<and> s' = emit cam_count t s1 \<and>
           log_lines s' = log_lines s @ [(complete_sets s, t)] \<and>
           complete_sets s' = complete_sets s + 1 \<and>
           (\<forall>i<cam_count. \<forall>j<cam_count. \<exists>a b.
              current_frames s1 ! i = Some a \<and> current_frames s1 ! j = Some b \<and>
              timestamp a = timestamp b \<and> timestamp a = t)"
  using assms(1)
proof (cases rule: loop_body_cases[where fd = fd])
  case incomplete
  then show ?thesis using assms(2,3) by (auto simp: filled_def)
next
  case (recycle m)
  then show ?thesis using assms(2,3) by (auto simp: filled_def recycled_def)
next
  case (emit m)
  let ?s1 = "filled fd cam_count s"
  have wf1: "wf_sync cam_count ?s1" by (rule wf_filled[OF assms(1)])
  have s': "s' = emit cam_count m ?s1" using emit(4) assms(2) by simp
  have "fill_slots fd cam_count s = (?s1, True)"
    using emit(1) by (simp add: fill_slots_eq[OF assms(1)])
  moreover have "align cam_count m ?s1 = Inr (?s1, True)"
    using emit(3) recycled_id[OF wf1 emit(3)] by (simp add: align_eq[OF wf1 emit(1)])
  moreover have "log_lines s' = log_lines s @ [(complete_sets s, m)]"
    "complete_sets s' = complete_sets s + 1"
    by (simp_all add: s' emit_eq[OF wf1]) (simp_all add: filled_def)
  moreover have "\<exists>a b. current_frames ?s1 ! i = Some a \<and> current_frames ?s1 ! j = Some b \<and>
              timestamp a = timestamp b \<and> timestamp a = m"
    if "i < cam_count" "j < cam_count" for i j
  proof -
    from emit(1) that obtain a b where ab: "current_frames ?s1 ! i = Some a"
      "current_frames ?s1 ! j = Some b"
      unfolding full_slots_def by blast
    with emit(3) that have "timestamp a = m" "timestamp b = m" by force+
    with ab show ?thesis by simp
  qed
  ultimately show ?thesis using emit(2) s' by blast
qed

theorem emitted_set_timestamps_equal_witness:
  "wf_sync 2 (init_sync 2) \<and>
   (\<exists>s'. loop_body lockstep_feed 2 (init_sync 2) = Inr s' \<and> log_lines s' = [(0, 100)] \<and>
      (\<exists>s1 a b. fill_slots lockstep_feed 2 (init_sync 2) = (s1, True) \<and>
         current_frames s1 ! 0 = Some a \<and> current_frames s1 ! 1 = Some b \<and>
         timestamp a = 100 \<and> timestamp b = 100))"
proof -
  let ?s' = "\<lparr>frame_queues =
        [\<lparr>polled = 1, enqueued = []\<rparr>,
         \<lparr>polled = 0, enqueued = [Some \<lparr>timestamp = 100, frame_buf = 0\<rparr>]\<rparr>,
         \<lparr>polled = 1, enqueued = []\<rparr>,
         \<lparr>polled = 0, enqueued = [Some \<lparr>timestamp = 100, frame_buf = 131072\<rparr>]\<rparr>],
        current_frames = [None, None], complete_sets = 1, log_lines = [(0, 100)]\<rparr>"
  have e: "loop_body lockstep_feed 2 (init_sync 2) = Inr ?s'"
    by code_simp
  have d: "log_lines ?s' \<noteq> log_lines (init_sync 2) \<or>
           complete_sets ?s' \<noteq> complete_sets (init_sync 2)"
    by (simp add: init_sync_def)
  from emitted_set_timestamps_equal[OF wf_init_sync e d]
  obtain s1 t where h: "fill_slots lockstep_feed 2 (init_sync 2) = (s1, True)"
    "log_lines ?s' = log_lines (init_sync 2) @ [(complete_sets (init_sync 2), t)]"
    "\<forall>i<2. \<forall>j<2. \<exists>a b. current_frames s1 ! i = Some a \<and> current_frames s1 ! j = Some b \<and>
        timestamp a = timestamp b \<and> timestamp a = t"
    by blast
  have t: "t = 100" using h(2) by (simp add: init_sync_def)
  have i0: "(0::nat) < 2" and i1: "(1::nat) < 2" by simp_all
  from h(3)[rule_format, OF i0 i1] t obtain a b where
    "current_frames s1 ! 0 = Some a" "current_frames s1 ! 1 = Some b"
    "timestamp a = 100" "timestamp b = 100"
    by auto
  with h(1) e wf_init_sync[of 2] show ?thesis by auto
qed

subsection \<open>C2: the alignment pass\<close>

text \<open>
  C2. The alignment pass is lines 183 to 200: the maximum is computed and the slots are
  compared with it. Over a full slot set of \<open>cam_count > 0\<close> cameras the pass computes
  \<open>t_max\<close>, the maximum of the timestamps held: no slot has a larger timestamp and some
  slot has this one. A slot whose timestamp is strictly less than \<open>t_max\<close> is appended to
  the empty queue \<open>frame_queues[i*2+1]\<close> of its camera and cleared to \<open>NULL\<close>; every
  other slot has the timestamp \<open>t_max\<close>, keeps its frame, and its empty queue is left as
  it was. No filled queue \<open>frame_queues[i*2]\<close> is touched, and the flag \<open>all_equal\<close> is
  left set exactly when every slot has the timestamp \<open>t_max\<close>.
\<close>

theorem alignment_pass_recycles_below_max:
  assumes "wf_sync cam_count s" "full_slots cam_count s" "0 < cam_count"
  shows "\<exists>t_max s' all_equal.
     find_max cam_count s = Inr t_max \<and> align cam_count t_max s = Inr (s', all_equal) \<and>
     (\<forall>i<cam_count. \<forall>b. current_frames s ! i = Some b \<longrightarrow> timestamp b \<le> t_max) \<and>
     (\<exists>i<cam_count. \<exists>b. current_frames s ! i = Some b \<and> timestamp b = t_max) \<and>
     (\<forall>i<cam_count. \<forall>b. current_frames s ! i = Some b \<longrightarrow>
        (if timestamp b < t_max
         then current_frames s' ! i = None \<and>
              frame_queues s' ! (i * 2 + 1) = (frame_queues s ! (i * 2 + 1))
                \<lparr>enqueued := enqueued (frame_queues s ! (i * 2 + 1)) @ [Some b]\<rparr>
         else timestamp b = t_max \<and> current_frames s' ! i = Some b \<and>
              frame_queues s' ! (i * 2 + 1) = frame_queues s ! (i * 2 + 1))) \<and>
     (\<forall>i<cam_count. frame_queues s' ! (i * 2) = frame_queues s ! (i * 2)) \<and>
     (all_equal \<longleftrightarrow>
        (\<forall>i<cam_count. \<forall>b. current_frames s ! i = Some b \<longrightarrow> timestamp b = t_max))"
proof -
  from find_max_full[OF assms(2,3)] obtain m k where m: "find_max cam_count s = Inr m"
     "\<forall>i<cam_count. timestamp (the (current_frames s ! i)) \<le> m"
     and k: "k < cam_count" "timestamp (the (current_frames s ! k)) = m" by blast
  let ?s' = "recycled m cam_count s"
  let ?eq = "\<forall>i<cam_count. timestamp (the (current_frames s ! i)) = m"
  have a: "align cam_count m s = Inr (?s', ?eq)"
    by (rule align_eq[OF assms(1,2)])
  have len: "length (current_frames s) = cam_count" "length (frame_queues s) = 2 * cam_count"
    using assms(1) by (simp_all add: wf_sync_def)
  have ub: "\<forall>i<cam_count. \<forall>b. current_frames s ! i = Some b \<longrightarrow> timestamp b \<le> m"
    using m(2) by force
  from assms(2) k(1) obtain c where c: "current_frames s ! k = Some c"
    unfolding full_slots_def by blast
  have top: "\<exists>i<cam_count. \<exists>b. current_frames s ! i = Some b \<and> timestamp b = m"
    using k c by auto
  have p: "\<forall>i<cam_count. \<forall>b. current_frames s ! i = Some b \<longrightarrow>
        (if timestamp b < m
         then current_frames ?s' ! i = None \<and>
              frame_queues ?s' ! (i * 2 + 1) = (frame_queues s ! (i * 2 + 1))
                \<lparr>enqueued := enqueued (frame_queues s ! (i * 2 + 1)) @ [Some b]\<rparr>
         else timestamp b = m \<and> current_frames ?s' ! i = Some b \<and>
              frame_queues ?s' ! (i * 2 + 1) = frame_queues s ! (i * 2 + 1))"
  proof (intro allI impI)
    fix i b assume that: "i < cam_count" "current_frames s ! i = Some b"
    have le: "timestamp b \<le> m" using ub that by blast
    show "if timestamp b < m
         then current_frames ?s' ! i = None \<and>
              frame_queues ?s' ! (i * 2 + 1) = (frame_queues s ! (i * 2 + 1))
                \<lparr>enqueued := enqueued (frame_queues s ! (i * 2 + 1)) @ [Some b]\<rparr>
         else timestamp b = m \<and> current_frames ?s' ! i = Some b \<and>
              frame_queues ?s' ! (i * 2 + 1) = frame_queues s ! (i * 2 + 1)"
      using that len le by (auto simp: recycled_def align_cur_def align_fq_def)
  qed
  have q: "\<forall>i<cam_count. frame_queues ?s' ! (i * 2) = frame_queues s ! (i * 2)"
    using len by (simp add: recycled_def align_fq_def)
  have e: "?eq \<longleftrightarrow>
        (\<forall>i<cam_count. \<forall>b. current_frames s ! i = Some b \<longrightarrow> timestamp b = m)"
    using assms(2) unfolding full_slots_def by force
  show ?thesis
    by (rule exI[of _ m], rule exI[of _ ?s'], rule exI[of _ ?eq])
       (intro conjI m(1) a ub top p q e)
qed

theorem alignment_pass_recycles_below_max_witness:
  "wf_sync 2 lagging_pair \<and> full_slots 2 lagging_pair \<and> (0::nat) < 2 \<and>
   (\<exists>s' all_equal. find_max 2 lagging_pair = Inr 200 \<and>
      align 2 200 lagging_pair = Inr (s', all_equal) \<and> \<not> all_equal \<and>
      timestamp (the (current_frames lagging_pair ! 0)) = 100 \<and>
      timestamp (the (current_frames lagging_pair ! 1)) = 200 \<and>
      current_frames s' ! 0 = None \<and>
      enqueued (frame_queues s' ! 1) = [Some \<lparr>timestamp = 100, frame_buf = 0\<rparr>] \<and>
      current_frames s' ! 1 = Some \<lparr>timestamp = 200, frame_buf = 131072\<rparr> \<and>
      frame_queues s' ! 3 = frame_queues lagging_pair ! 3 \<and>
      frame_queues s' ! 0 = frame_queues lagging_pair ! 0 \<and>
      frame_queues s' ! 2 = frame_queues lagging_pair ! 2)"
proof -
  have pos: "(0::nat) < 2" by simp
  from alignment_pass_recycles_below_max[OF wf_lagging_pair full_lagging_pair pos]
  obtain t_max s' all_equal where h:
    "find_max 2 lagging_pair = Inr t_max" "align 2 t_max lagging_pair = Inr (s', all_equal)"
    "\<forall>i<2. \<forall>b. current_frames lagging_pair ! i = Some b \<longrightarrow>
        (if timestamp b < t_max
         then current_frames s' ! i = None \<and>
              frame_queues s' ! (i * 2 + 1) = (frame_queues lagging_pair ! (i * 2 + 1))
                \<lparr>enqueued := enqueued (frame_queues lagging_pair ! (i * 2 + 1)) @ [Some b]\<rparr>
         else timestamp b = t_max \<and> current_frames s' ! i = Some b \<and>
              frame_queues s' ! (i * 2 + 1) = frame_queues lagging_pair ! (i * 2 + 1))"
    "\<forall>i<2. frame_queues s' ! (i * 2) = frame_queues lagging_pair ! (i * 2)"
    "all_equal \<longleftrightarrow>
        (\<forall>i<2. \<forall>b. current_frames lagging_pair ! i = Some b \<longrightarrow> timestamp b = t_max)"
    by (elim exE conjE)
  have t: "t_max = 200" using h(1) max_lagging_pair by simp
  have c0: "current_frames lagging_pair ! 0 = Some \<lparr>timestamp = 100, frame_buf = 0\<rparr>"
    and c1: "current_frames lagging_pair ! 1 = Some \<lparr>timestamp = 200, frame_buf = 131072\<rparr>"
    and e1: "enqueued (frame_queues lagging_pair ! 1) = []"
    by (simp_all add: lagging_pair_def)
  have i0: "(0::nat) < 2" and i1: "(1::nat) < 2" by simp_all
  from h(3)[rule_format, OF i0 c0] t e1 have a0: "current_frames s' ! 0 = None"
     "enqueued (frame_queues s' ! 1) = [Some \<lparr>timestamp = 100, frame_buf = 0\<rparr>]"
    by simp_all
  from h(3)[rule_format, OF i1 c1] t have a1:
     "current_frames s' ! 1 = Some \<lparr>timestamp = 200, frame_buf = 131072\<rparr>"
     "frame_queues s' ! 3 = frame_queues lagging_pair ! 3"
    by simp_all
  from h(4)[rule_format, OF i0] h(4)[rule_format, OF i1]
  have a2: "frame_queues s' ! 0 = frame_queues lagging_pair ! 0"
     "frame_queues s' ! 2 = frame_queues lagging_pair ! 2"
    by simp_all
  have ne: "\<not> all_equal"
  proof
    assume all_equal
    with h(5) have "\<forall>i<2. \<forall>b. current_frames lagging_pair ! i = Some b \<longrightarrow> timestamp b = t_max"
      by simp
    from this[rule_format, OF i0 c0] t show False by simp
  qed
  have t0: "timestamp (the (current_frames lagging_pair ! 0)) = 100" by (simp add: c0)
  have t1: "timestamp (the (current_frames lagging_pair ! 1)) = 200" unfolding c1 by simp
  have h2: "align 2 200 lagging_pair = Inr (s', all_equal)" using h(2) t by simp
  have "\<exists>s' all_equal. find_max 2 lagging_pair = Inr 200 \<and>
      align 2 200 lagging_pair = Inr (s', all_equal) \<and> \<not> all_equal \<and>
      timestamp (the (current_frames lagging_pair ! 0)) = 100 \<and>
      timestamp (the (current_frames lagging_pair ! 1)) = 200 \<and>
      current_frames s' ! 0 = None \<and>
      enqueued (frame_queues s' ! 1) = [Some \<lparr>timestamp = 100, frame_buf = 0\<rparr>] \<and>
      current_frames s' ! 1 = Some \<lparr>timestamp = 200, frame_buf = 131072\<rparr> \<and>
      frame_queues s' ! 3 = frame_queues lagging_pair ! 3 \<and>
      frame_queues s' ! 0 = frame_queues lagging_pair ! 0 \<and>
      frame_queues s' ! 2 = frame_queues lagging_pair ! 2"
    by (rule exI[of _ s'], rule exI[of _ all_equal])
       (intro conjI max_lagging_pair h2 ne t0 t1 a0 a1 a2)
  then show ?thesis
    by (intro conjI wf_lagging_pair full_lagging_pair pos)
qed

subsection \<open>C9: the alignment pass keeps a slot\<close>

text \<open>
  C9. In an alignment pass (lines 183 to 197) over a full slot set of \<open>cam_count > 0\<close>
  cameras, the value \<open>t_max\<close> the pass computes is the maximum timestamp: no slot holds
  a larger one and some slot holds it. Every slot that holds it keeps its frame and is
  not enqueued. So the pass clears at most \<open>cam_count - 1\<close> slots, and the number of
  handles it appends to the empty queues is the number of slots it clears.
\<close>

theorem alignment_pass_keeps_a_slot:
  assumes "wf_sync cam_count s" "full_slots cam_count s" "0 < cam_count"
  shows "\<exists>t_max s' all_equal.
     find_max cam_count s = Inr t_max \<and> align cam_count t_max s = Inr (s', all_equal) \<and>
     (\<forall>i<cam_count. \<forall>b. current_frames s ! i = Some b \<longrightarrow> timestamp b \<le> t_max) \<and>
     (\<exists>i<cam_count. \<exists>b. current_frames s ! i = Some b \<and> timestamp b = t_max) \<and>
     (\<forall>i<cam_count. \<forall>b. current_frames s ! i = Some b \<and> timestamp b = t_max \<longrightarrow>
        current_frames s' ! i = Some b \<and>
        frame_queues s' ! (i * 2 + 1) = frame_queues s ! (i * 2 + 1)) \<and>
     card {i. i < cam_count \<and> current_frames s' ! i = None} \<le> cam_count - 1 \<and>
     (\<Sum>i<cam_count. length (enqueued (frame_queues s' ! (i * 2 + 1)))) =
       (\<Sum>i<cam_count. length (enqueued (frame_queues s ! (i * 2 + 1)))) +
       card {i. i < cam_count \<and> current_frames s' ! i = None}"
proof -
  from find_max_full[OF assms(2,3)] obtain m k where m: "find_max cam_count s = Inr m"
     and mx: "\<forall>i<cam_count. timestamp (the (current_frames s ! i)) \<le> m"
     and k: "k < cam_count" "timestamp (the (current_frames s ! k)) = m" by blast
  let ?s' = "recycled m cam_count s"
  have a: "align cam_count m s = Inr (?s', \<forall>i<cam_count. timestamp (the (current_frames s ! i)) = m)"
    by (rule align_eq[OF assms(1,2)])
  have len: "length (current_frames s) = cam_count" "length (frame_queues s) = 2 * cam_count"
    using assms(1) by (simp_all add: wf_sync_def)
  have ub: "\<forall>i<cam_count. \<forall>b. current_frames s ! i = Some b \<longrightarrow> timestamp b \<le> m"
    using mx by force
  from assms(2) k(1) obtain c where c: "current_frames s ! k = Some c"
    unfolding full_slots_def by blast
  have top: "\<exists>i<cam_count. \<exists>b. current_frames s ! i = Some b \<and> timestamp b = m"
    using k c by auto
  have keep: "current_frames ?s' ! i = Some b \<and>
        frame_queues ?s' ! (i * 2 + 1) = frame_queues s ! (i * 2 + 1)"
    if "i < cam_count" "current_frames s ! i = Some b \<and> timestamp b = m" for i b
    using that len by (simp add: recycled_def align_cur_def align_fq_def)
  have cur': "current_frames ?s' ! i = None \<longleftrightarrow> timestamp (the (current_frames s ! i)) \<noteq> m"
    if "i < cam_count" for i
  proof -
    from assms(2) that obtain b where "current_frames s ! i = Some b"
      unfolding full_slots_def by blast
    then show ?thesis using that len by (simp add: recycled_def align_cur_def)
  qed
  have "{i. i < cam_count \<and> current_frames ?s' ! i = None} \<subseteq> {..<cam_count} - {k}"
    using cur' k by auto
  then have "card {i. i < cam_count \<and> current_frames ?s' ! i = None} \<le> card ({..<cam_count} - {k})"
    by (intro card_mono) auto
  also have "\<dots> = cam_count - 1" using k(1) by simp
  finally have cnt: "card {i. i < cam_count \<and> current_frames ?s' ! i = None} \<le> cam_count - 1" .
  have enq: "length (enqueued (frame_queues ?s' ! (i * 2 + 1))) =
       length (enqueued (frame_queues s ! (i * 2 + 1))) +
       (if current_frames ?s' ! i = None then 1 else 0)"
    if "i < cam_count" for i
    using that len cur'[OF that] by (simp add: recycled_def align_fq_def)
  have "(\<Sum>i<cam_count. length (enqueued (frame_queues ?s' ! (i * 2 + 1)))) =
        (\<Sum>i<cam_count. length (enqueued (frame_queues s ! (i * 2 + 1))) +
            (if current_frames ?s' ! i = None then 1 else 0))"
  proof (rule sum.cong[OF refl])
    fix x assume "x \<in> {..<cam_count}"
    then have "x < cam_count" by simp
    from enq[OF this]
    show "length (enqueued (frame_queues ?s' ! (x * 2 + 1))) =
       length (enqueued (frame_queues s ! (x * 2 + 1))) +
       (if current_frames ?s' ! x = None then 1 else 0)" .
  qed
  also have "\<dots> = (\<Sum>i<cam_count. length (enqueued (frame_queues s ! (i * 2 + 1)))) +
       card {i. i < cam_count \<and> current_frames ?s' ! i = None}"
    by (simp add: sum.distrib sum_indicator_card)
  finally have tot: "(\<Sum>i<cam_count. length (enqueued (frame_queues ?s' ! (i * 2 + 1)))) =
       (\<Sum>i<cam_count. length (enqueued (frame_queues s ! (i * 2 + 1)))) +
       card {i. i < cam_count \<and> current_frames ?s' ! i = None}" .
  from m a ub top keep cnt tot show ?thesis by blast
qed

theorem alignment_pass_keeps_a_slot_witness:
  "wf_sync 2 lagging_pair \<and> full_slots 2 lagging_pair \<and> (0::nat) < 2 \<and>
   (\<exists>s' all_equal. find_max 2 lagging_pair = Inr 200 \<and>
      align 2 200 lagging_pair = Inr (s', all_equal) \<and>
      timestamp (the (current_frames lagging_pair ! 0)) \<le> 200 \<and>
      timestamp (the (current_frames lagging_pair ! 1)) = 200 \<and>
      current_frames s' ! 1 = Some \<lparr>timestamp = 200, frame_buf = 131072\<rparr> \<and>
      card {i. i < 2 \<and> current_frames s' ! i = None} \<le> 1)"
proof -
  have pos: "(0::nat) < 2" by simp
  from alignment_pass_keeps_a_slot[OF wf_lagging_pair full_lagging_pair pos]
  obtain t_max s' all_equal where h:
    "find_max 2 lagging_pair = Inr t_max" "align 2 t_max lagging_pair = Inr (s', all_equal)"
    "\<forall>i<2. \<forall>b. current_frames lagging_pair ! i = Some b \<longrightarrow> timestamp b \<le> t_max"
    "\<forall>i<2. \<forall>b. current_frames lagging_pair ! i = Some b \<and> timestamp b = t_max \<longrightarrow>
        current_frames s' ! i = Some b \<and>
        frame_queues s' ! (i * 2 + 1) = frame_queues lagging_pair ! (i * 2 + 1)"
    "card {i. i < 2 \<and> current_frames s' ! i = None} \<le> 2 - 1"
    by (elim exE conjE)
  have t: "t_max = 200" using h(1) max_lagging_pair by simp
  have c0: "current_frames lagging_pair ! 0 = Some \<lparr>timestamp = 100, frame_buf = 0\<rparr>"
    and c1: "current_frames lagging_pair ! 1 = Some \<lparr>timestamp = 200, frame_buf = 131072\<rparr>"
    by (simp_all add: lagging_pair_def)
  have i0: "(0::nat) < 2" and i1: "(1::nat) < 2" by simp_all
  from h(3)[rule_format, OF i0 c0] t
  have b0: "timestamp (the (current_frames lagging_pair ! 0)) \<le> 200" by (simp add: c0)
  have b1: "timestamp (the (current_frames lagging_pair ! 1)) = 200" unfolding c1 by simp
  from h(4)[rule_format, OF i1, of "\<lparr>timestamp = 200, frame_buf = 131072\<rparr>"] c1 t
  have a1: "current_frames s' ! 1 = Some \<lparr>timestamp = 200, frame_buf = 131072\<rparr>"
    by simp
  from h(5) have a2: "card {i. i < 2 \<and> current_frames s' ! i = None} \<le> 1" by simp
  have h2: "align 2 200 lagging_pair = Inr (s', all_equal)" using h(2) t by simp
  have "\<exists>s' all_equal. find_max 2 lagging_pair = Inr 200 \<and>
      align 2 200 lagging_pair = Inr (s', all_equal) \<and>
      timestamp (the (current_frames lagging_pair ! 0)) \<le> 200 \<and>
      timestamp (the (current_frames lagging_pair ! 1)) = 200 \<and>
      current_frames s' ! 1 = Some \<lparr>timestamp = 200, frame_buf = 131072\<rparr> \<and>
      card {i. i < 2 \<and> current_frames s' ! i = None} \<le> 1"
    by (rule exI[of _ s'], rule exI[of _ all_equal])
       (intro conjI max_lagging_pair h2 b0 b1 a1 a2)
  then show ?thesis
    by (intro conjI wf_lagging_pair full_lagging_pair pos)
qed

subsection \<open>C3: emitted timestamps increase\<close>

text \<open>
  C3. When every filled queue yields frames with strictly increasing timestamps, the
  timestamps of the sets emitted one after the other strictly increase. The log holds one
  line per emitted set, in the order of emission; after any number \<open>n\<close> of passes of the
  loop, started as \<open>main\<close> starts it with \<open>cam_count > 0\<close> cameras, the pass has not
  faulted and the logged timestamps are strictly increasing.
\<close>

theorem emitted_timestamps_strictly_increase:
  assumes "increasing_feed cam_count fd" "0 < cam_count"
  shows "\<exists>s. passes n fd cam_count (init_sync cam_count) = Inr s \<and>
           sorted_wrt (<) (map snd (log_lines s))"
  using mono_inv_passes[OF assms mono_inv_init, of n] by (auto simp: mono_inv_def)

theorem emitted_timestamps_strictly_increase_witness:
  "increasing_feed 2 (list_feed s2_frames) \<and> (0::nat) < 2 \<and>
   (\<exists>s. passes 4 (list_feed s2_frames) 2 (init_sync 2) = Inr s \<and>
      sorted_wrt (<) (map snd (log_lines s)) \<and> map snd (log_lines s) = [200, 300, 400])"
proof -
  have p: "(0::nat) < 2" by simp
  from emitted_timestamps_strictly_increase[OF increasing_s2 p, of 4]
  obtain s where s: "passes 4 (list_feed s2_frames) 2 (init_sync 2) = Inr s"
    "sorted_wrt (<) (map snd (log_lines s))" by blast
  from s(1) have "s = s2_final 4" unfolding s2_passes_4 by simp
  then have l: "map snd (log_lines s) = [200, 300, 400]" by (simp add: s2_final_def)
  have "\<exists>s. passes 4 (list_feed s2_frames) 2 (init_sync 2) = Inr s \<and>
      sorted_wrt (<) (map snd (log_lines s)) \<and> map snd (log_lines s) = [200, 300, 400]"
    by (rule exI[of _ s]) (intro conjI s l)
  then show ?thesis by (intro conjI increasing_s2 p)
qed

subsection \<open>C4: two cameras, one frame of lag\<close>

text \<open>
  C4. Two cameras. The filled queue of camera 0 yields four frames with the timestamps
  100, 200, 300, 400 and the filled queue of camera 1 three frames with 200, 300, 400, in
  this order, under any arrival schedule: any number of polls may find a queue empty
  before, between and after the frames, and the buffers are arbitrary. Then after any
  number of passes the logged timestamps are a prefix of 200, 300, 400 and at most one
  handle with the timestamp 100 has been passed to \<open>frame_queues[1]\<close>. From some pass on
  the log is exactly the sets 0, 1, 2 with the timestamps 200, 300, 400, both slots are
  \<open>NULL\<close>, the empty queue of camera 0 has received the four frames of camera 0, each
  once and in order, so the buffer stamped 100 exactly once, the empty queue of camera 1
  has received the three frames of camera 1, and nothing was enqueued to a filled queue.
\<close>

theorem s2_one_frame_lag:
  assumes "map timestamp frames0 = [100, 200, 300, 400]"
    "map timestamp frames1 = [200, 300, 400]"
    "delivers fd 0 frames0" "delivers fd 2 frames1"
  shows "(\<forall>n. \<exists>s k. passes n fd 2 (init_sync 2) = Inr s \<and>
      map snd (log_lines s) = take k [200, 300, 400] \<and>
      count_list (map (map_option timestamp) (enqueued (frame_queues s ! 1))) (Some 100) \<le> 1) \<and>
   (\<exists>N. \<forall>n\<ge>N. \<exists>s. passes n fd 2 (init_sync 2) = Inr s \<and>
        log_lines s = [(0, 200), (1, 300), (2, 400)] \<and>
        current_frames s = [None, None] \<and>
        enqueued (frame_queues s ! 0) = [] \<and>
        enqueued (frame_queues s ! 1) = map Some frames0 \<and>
        enqueued (frame_queues s ! 2) = [] \<and>
        enqueued (frame_queues s ! 3) = map Some frames1 \<and>
        count_list (map (map_option timestamp) (enqueued (frame_queues s ! 1))) (Some 100) = 1)"
proof (intro conjI allI)
  fix n
  show "\<exists>s k. passes n fd 2 (init_sync 2) = Inr s \<and>
      map snd (log_lines s) = take k [200, 300, 400] \<and>
      count_list (map (map_option timestamp) (enqueued (frame_queues s ! 1))) (Some 100) \<le> 1"
    by (rule lag_prefix[OF assms])
next
  show "\<exists>N. \<forall>n\<ge>N. \<exists>s. passes n fd 2 (init_sync 2) = Inr s \<and>
        log_lines s = [(0, 200), (1, 300), (2, 400)] \<and>
        current_frames s = [None, None] \<and>
        enqueued (frame_queues s ! 0) = [] \<and>
        enqueued (frame_queues s ! 1) = map Some frames0 \<and>
        enqueued (frame_queues s ! 2) = [] \<and>
        enqueued (frame_queues s ! 3) = map Some frames1 \<and>
        count_list (map (map_option timestamp) (enqueued (frame_queues s ! 1))) (Some 100) = 1"
    by (rule lag_final[OF assms])
qed

theorem s2_one_frame_lag_witness:
  "map timestamp (s2_frames 0) = [100, 200, 300, 400] \<and>
   map timestamp (s2_frames 2) = [200, 300, 400] \<and>
   delivers (spaced_feed s2_frames) 0 (s2_frames 0) \<and>
   delivers (spaced_feed s2_frames) 2 (s2_frames 2) \<and>
   spaced_feed s2_frames 0 0 = None \<and> spaced_feed s2_frames 0 2 = None \<and>
   (\<exists>s k. passes 5 (spaced_feed s2_frames) 2 (init_sync 2) = Inr s \<and>
      map snd (log_lines s) = take k [200, 300, 400] \<and> log_lines s = [(0, 200)] \<and>
      count_list (map (map_option timestamp) (enqueued (frame_queues s ! 1))) (Some 100) \<le> 1) \<and>
   (\<exists>N s. passes N (spaced_feed s2_frames) 2 (init_sync 2) = Inr s \<and>
      log_lines s = [(0, 200), (1, 300), (2, 400)] \<and>
      current_frames s = [None, None] \<and>
      enqueued (frame_queues s ! 1) = map Some (s2_frames 0) \<and>
      enqueued (frame_queues s ! 3) = map Some (s2_frames 2) \<and>
      count_list (map (map_option timestamp) (enqueued (frame_queues s ! 1))) (Some 100) = 1) \<and>
   delivers (list_feed s2_frames) 0 (s2_frames 0) \<and>
   delivers (list_feed s2_frames) 2 (s2_frames 2) \<and>
   (\<exists>N s. passes N (list_feed s2_frames) 2 (init_sync 2) = Inr s \<and>
      log_lines s = [(0, 200), (1, 300), (2, 400)] \<and>
      enqueued (frame_queues s ! 1) = map Some (s2_frames 0) \<and>
      count_list (map (map_option timestamp) (enqueued (frame_queues s ! 1))) (Some 100) = 1)"
proof -
  note sp = s2_one_frame_lag[OF s2_timestamps delivers_spaced_feed delivers_spaced_feed]
  note li = s2_one_frame_lag[OF s2_timestamps delivers_list_feed delivers_list_feed]
  from sp[THEN conjunct1, rule_format, of 5] obtain s k where
    s: "passes 5 (spaced_feed s2_frames) 2 (init_sync 2) = Inr s"
    and k: "map snd (log_lines s) = take k [200, 300, 400]"
    and c: "count_list (map (map_option timestamp) (enqueued (frame_queues s ! 1))) (Some 100) \<le> 1"
    by (elim exE conjE)
  from spaced_s2_passes_5 have l: "log_lines s = [(0, 200)]" unfolding s by simp
  have a: "\<exists>s k. passes 5 (spaced_feed s2_frames) 2 (init_sync 2) = Inr s \<and>
      map snd (log_lines s) = take k [200, 300, 400] \<and> log_lines s = [(0, 200)] \<and>
      count_list (map (map_option timestamp) (enqueued (frame_queues s ! 1))) (Some 100) \<le> 1"
    by (rule exI[of _ s], rule exI[of _ k]) (intro conjI s k l c)
  from sp[THEN conjunct2] obtain N where
    N: "\<forall>n\<ge>N. \<exists>s. passes n (spaced_feed s2_frames) 2 (init_sync 2) = Inr s \<and>
        log_lines s = [(0, 200), (1, 300), (2, 400)] \<and>
        current_frames s = [None, None] \<and>
        enqueued (frame_queues s ! 0) = [] \<and>
        enqueued (frame_queues s ! 1) = map Some (s2_frames 0) \<and>
        enqueued (frame_queues s ! 2) = [] \<and>
        enqueued (frame_queues s ! 3) = map Some (s2_frames 2) \<and>
        count_list (map (map_option timestamp) (enqueued (frame_queues s ! 1))) (Some 100) = 1"
    by (elim exE)
  from N[rule_format, OF le_refl] obtain z where
    z: "passes N (spaced_feed s2_frames) 2 (init_sync 2) = Inr z"
    "log_lines z = [(0, 200), (1, 300), (2, 400)]"
    "current_frames z = [None, None]"
    "enqueued (frame_queues z ! 1) = map Some (s2_frames 0)"
    "enqueued (frame_queues z ! 3) = map Some (s2_frames 2)"
    "count_list (map (map_option timestamp) (enqueued (frame_queues z ! 1))) (Some 100) = 1"
    by (elim exE conjE)
  have b: "\<exists>N s. passes N (spaced_feed s2_frames) 2 (init_sync 2) = Inr s \<and>
      log_lines s = [(0, 200), (1, 300), (2, 400)] \<and>
      current_frames s = [None, None] \<and>
      enqueued (frame_queues s ! 1) = map Some (s2_frames 0) \<and>
      enqueued (frame_queues s ! 3) = map Some (s2_frames 2) \<and>
      count_list (map (map_option timestamp) (enqueued (frame_queues s ! 1))) (Some 100) = 1"
    by (rule exI[of _ N], rule exI[of _ z]) (intro conjI z)
  from li[THEN conjunct2] obtain M where
    M: "\<forall>n\<ge>M. \<exists>s. passes n (list_feed s2_frames) 2 (init_sync 2) = Inr s \<and>
        log_lines s = [(0, 200), (1, 300), (2, 400)] \<and>
        current_frames s = [None, None] \<and>
        enqueued (frame_queues s ! 0) = [] \<and>
        enqueued (frame_queues s ! 1) = map Some (s2_frames 0) \<and>
        enqueued (frame_queues s ! 2) = [] \<and>
        enqueued (frame_queues s ! 3) = map Some (s2_frames 2) \<and>
        count_list (map (map_option timestamp) (enqueued (frame_queues s ! 1))) (Some 100) = 1"
    by (elim exE)
  from M[rule_format, OF le_refl] obtain y where
    y: "passes M (list_feed s2_frames) 2 (init_sync 2) = Inr y"
    "log_lines y = [(0, 200), (1, 300), (2, 400)]"
    "enqueued (frame_queues y ! 1) = map Some (s2_frames 0)"
    "count_list (map (map_option timestamp) (enqueued (frame_queues y ! 1))) (Some 100) = 1"
    by (elim exE conjE)
  have d: "\<exists>N s. passes N (list_feed s2_frames) 2 (init_sync 2) = Inr s \<and>
      log_lines s = [(0, 200), (1, 300), (2, 400)] \<and>
      enqueued (frame_queues s ! 1) = map Some (s2_frames 0) \<and>
      count_list (map (map_option timestamp) (enqueued (frame_queues s ! 1))) (Some 100) = 1"
    by (rule exI[of _ M], rule exI[of _ y]) (intro conjI y)
  show ?thesis
    by (intro conjI s2_timestamps delivers_spaced_feed delivers_list_feed
          spaced_s2_gaps(1) spaced_s2_gaps(3) a b d)
qed

subsection \<open>C5: the loop exits after 100 sets\<close>

text \<open>
  C5, as the code has it. After a successful startup: whenever the synchronizer loop
  exits it has not faulted, \<open>complete_sets\<close> is 100, exactly 100 sets have been logged,
  every slot of \<open>current_frames\<close> is \<open>NULL\<close> and every handle held has been returned:
  for each camera, the handles passed to \<open>lf_queue_nq\<close> on its empty queue
  \<open>frame_queues[i*2+1]\<close> are the handles \<open>lf_queue_dq\<close> returned from its filled queue
  \<open>frame_queues[i*2]\<close>, all of them, in the same order. \<open>main\<close> then broadcasts the 4
  bytes \<open>STOP\<close> (0x53 0x54 0x4F 0x50, no terminator), joins the workers, frees the pixel
  allocation and returns 0. The loop does exit when every filled queue yields frames with
  strictly increasing timestamps and 100 timestamps are common to all cameras. When the
  cameras are in lockstep (every poll of a filled queue returns a frame and the \<open>k\<close>-th
  frames of all cameras carry the same timestamp) it exits after exactly 100 passes: it
  has exited after 100 passes and is still running after any smaller number, every
  filled queue has been polled 100 times, and the 100 frames of each camera are in its
  empty queue.
\<close>

theorem loop_exits_with_100_sets:
  assumes "startup_ok cam_count e"
  shows "(\<forall>fuel r. sync_loop fuel (dq_feed e) cam_count (init_sync cam_count) = Some r \<longrightarrow>
           (\<exists>s. r = Inr s \<and> complete_sets s = 100 \<and> length (log_lines s) = 100 \<and>
                (\<forall>i<cam_count. current_frames s ! i = None \<and>
                   enqueued (frame_queues s ! (i * 2 + 1)) =
                     taken (dq_feed e) (i * 2) (polled (frame_queues s ! (i * 2)))) \<and>
                main fuel e = Some (Exit 0, map Spawn [0..<cam_count] @
                  [Broadcast (bytes_of_u64 (start_timestamp (clock_gettime_ts e))),
                   Broadcast [0x53, 0x54, 0x4F, 0x50]] @
                  map Join [0..<cam_count] @ [FreeFrameBufs, CleanupLogging]))) \<and>
         (\<forall>ts. increasing_feed cam_count (dq_feed e) \<and> distinct ts \<and> length ts = 100 \<and>
               (\<forall>t\<in>set ts. yields cam_count (dq_feed e) t) \<longrightarrow>
           (\<exists>fuel s. sync_loop fuel (dq_feed e) cam_count (init_sync cam_count) = Some (Inr s))) \<and>
         (\<forall>grid. in_lockstep cam_count (dq_feed e) grid \<longrightarrow>
           (\<exists>s. sync_loop 100 (dq_feed e) cam_count (init_sync cam_count) = Some (Inr s) \<and>
                (\<forall>fuel<100. sync_loop fuel (dq_feed e) cam_count (init_sync cam_count) = None) \<and>
                (\<forall>i<cam_count. polled (frame_queues s ! (i * 2)) = 100 \<and>
                   enqueued (frame_queues s ! (i * 2 + 1)) = map (dq_feed e (i * 2)) [0..<100])))"
proof (intro conjI allI impI)
  fix fuel r
  assume r: "sync_loop fuel (dq_feed e) cam_count (init_sync cam_count) = Some r"
  from sync_loop_exit[OF count_inv_init r] obtain s where
    s: "r = Inr s" "count_inv cam_count s" "\<not> complete_sets s < 100" by blast
  from count_inv_at_exit[OF s(2,3)] have x: "complete_sets s = 100" "length (log_lines s) = 100"
    and nul: "\<forall>i<cam_count. current_frames s ! i = None" by simp_all
  from r s(1) have "conserved (dq_feed e) cam_count s"
    by (intro sync_loop_conserved[of fuel]) simp
  then have cons: "\<forall>i<cam_count.
        taken (dq_feed e) (i * 2) (polled (frame_queues s ! (i * 2))) =
          enqueued (frame_queues s ! (i * 2 + 1)) @
          filter (\<lambda>h. h \<noteq> None) [current_frames s ! i]"
    by (simp add: conserved_def)
  have ret: "\<forall>i<cam_count. current_frames s ! i = None \<and>
                   enqueued (frame_queues s ! (i * 2 + 1)) =
                     taken (dq_feed e) (i * 2) (polled (frame_queues s ! (i * 2)))"
  proof (intro allI impI)
    fix i assume i: "i < cam_count"
    from nul i have n: "current_frames s ! i = None" by blast
    from cons[rule_format, OF i] n
    show "current_frames s ! i = None \<and>
                   enqueued (frame_queues s ! (i * 2 + 1)) =
                     taken (dq_feed e) (i * 2) (polled (frame_queues s ! (i * 2)))"
      by simp
  qed
  have m: "main fuel e = Some (Exit 0, map Spawn [0..<cam_count] @
                  [Broadcast (bytes_of_u64 (start_timestamp (clock_gettime_ts e))),
                   Broadcast [0x53, 0x54, 0x4F, 0x50]] @
                  map Join [0..<cam_count] @ [FreeFrameBufs, CleanupLogging])"
    using r s(1) by (simp add: main_ok[OF assms])
  show "\<exists>s. r = Inr s \<and> complete_sets s = 100 \<and> length (log_lines s) = 100 \<and>
                (\<forall>i<cam_count. current_frames s ! i = None \<and>
                   enqueued (frame_queues s ! (i * 2 + 1)) =
                     taken (dq_feed e) (i * 2) (polled (frame_queues s ! (i * 2)))) \<and>
                main fuel e = Some (Exit 0, map Spawn [0..<cam_count] @
                  [Broadcast (bytes_of_u64 (start_timestamp (clock_gettime_ts e))),
                   Broadcast [0x53, 0x54, 0x4F, 0x50]] @
                  map Join [0..<cam_count] @ [FreeFrameBufs, CleanupLogging])"
    by (rule exI[of _ s]) (intro conjI s(1) x ret m)
next
  fix ts
  assume h: "increasing_feed cam_count (dq_feed e) \<and> distinct ts \<and> length ts = 100 \<and>
               (\<forall>t\<in>set ts. yields cam_count (dq_feed e) t)"
  have c: "0 < cam_count" using assms by (simp add: startup_ok_def)
  from h have h1: "increasing_feed cam_count (dq_feed e)" and h2: "distinct ts"
    and h3: "length ts = 100" and h4: "\<forall>t\<in>set ts. yields cam_count (dq_feed e) t"
    by simp_all
  show "\<exists>fuel s. sync_loop fuel (dq_feed e) cam_count (init_sync cam_count) = Some (Inr s)"
    by (rule sync_loop_terminates[OF c h1 h2 h3 h4])
next
  fix grid
  assume l: "in_lockstep cam_count (dq_feed e) grid"
  have c: "0 < cam_count" using assms by (simp add: startup_ok_def)
  from lock_run[OF l c lock_inv_init, of 100] obtain s where
    s: "sync_loop 100 (dq_feed e) cam_count (init_sync cam_count) = Some (Inr s)"
    "lock_inv cam_count 100 s" by auto
  have early: "\<forall>fuel<100. sync_loop fuel (dq_feed e) cam_count (init_sync cam_count) = None"
  proof (intro allI impI)
    fix fuel :: nat assume "fuel < 100"
    then have "0 + fuel < 100" by simp
    from lock_spin[OF l c lock_inv_init this]
    show "sync_loop fuel (dq_feed e) cam_count (init_sync cam_count) = None" .
  qed
  from s(1) have cons: "conserved (dq_feed e) cam_count s" by (rule sync_loop_conserved)
  have q: "\<forall>i<cam_count. polled (frame_queues s ! (i * 2)) = 100 \<and>
                   enqueued (frame_queues s ! (i * 2 + 1)) = map (dq_feed e (i * 2)) [0..<100]"
  proof (intro allI impI)
    fix i assume i: "i < cam_count"
    from s(2) i have p: "polled (frame_queues s ! (i * 2)) = 100"
      and n: "current_frames s ! i = None" by (simp_all add: lock_inv_def)
    from l i have "\<forall>k<100. dq_feed e (i * 2) k \<noteq> None"
      unfolding in_lockstep_def by fastforce
    then have t: "taken (dq_feed e) (i * 2) 100 = map (dq_feed e (i * 2)) [0..<100]"
      by (rule taken_all)
    from cons i have "taken (dq_feed e) (i * 2) (polled (frame_queues s ! (i * 2))) =
          enqueued (frame_queues s ! (i * 2 + 1)) @
          filter (\<lambda>h. h \<noteq> None) [current_frames s ! i]"
      by (simp add: conserved_def)
    then have "enqueued (frame_queues s ! (i * 2 + 1)) = map (dq_feed e (i * 2)) [0..<100]"
      unfolding p n t by simp
    with p show "polled (frame_queues s ! (i * 2)) = 100 \<and>
                   enqueued (frame_queues s ! (i * 2 + 1)) = map (dq_feed e (i * 2)) [0..<100]"
      by (intro conjI)
  qed
  show "\<exists>s. sync_loop 100 (dq_feed e) cam_count (init_sync cam_count) = Some (Inr s) \<and>
                (\<forall>fuel<100. sync_loop fuel (dq_feed e) cam_count (init_sync cam_count) = None) \<and>
                (\<forall>i<cam_count. polled (frame_queues s ! (i * 2)) = 100 \<and>
                   enqueued (frame_queues s ! (i * 2 + 1)) = map (dq_feed e (i * 2)) [0..<100])"
    by (rule exI[of _ s]) (intro conjI s(1) early q)
qed

theorem loop_exits_with_100_sets_witness:
  "startup_ok 2 grid_env \<and> increasing_feed 2 (dq_feed grid_env) \<and>
   distinct (map (\<lambda>k. of_nat (100 * k + 100) :: 64 word) [0..<100]) \<and>
   length (map (\<lambda>k. of_nat (100 * k + 100) :: 64 word) [0..<100]) = 100 \<and>
   yields 2 (dq_feed grid_env) 100 \<and> yields 2 (dq_feed grid_env) 10000 \<and>
   (\<exists>fuel s. sync_loop fuel (dq_feed grid_env) 2 (init_sync 2) = Some (Inr s) \<and>
      complete_sets s = 100 \<and> length (log_lines s) = 100 \<and>
      current_frames s ! 0 = None \<and> current_frames s ! 1 = None \<and>
      enqueued (frame_queues s ! 1) = taken (dq_feed grid_env) 0 (polled (frame_queues s ! 0)) \<and>
      enqueued (frame_queues s ! 3) = taken (dq_feed grid_env) 2 (polled (frame_queues s ! 2)) \<and>
      main fuel grid_env = Some (Exit 0,
        [Spawn 0, Spawn 1,
         Broadcast (bytes_of_u64 (start_timestamp (clock_gettime_ts grid_env))),
         Broadcast [0x53, 0x54, 0x4F, 0x50], Join 0, Join 1, FreeFrameBufs, CleanupLogging])) \<and>
   startup_ok 2 demo_env \<and> in_lockstep 2 (dq_feed demo_env) (\<lambda>k. of_nat k * 100 + 100) \<and>
   (\<exists>s. sync_loop 100 (dq_feed demo_env) 2 (init_sync 2) = Some (Inr s) \<and>
      sync_loop 99 (dq_feed demo_env) 2 (init_sync 2) = None \<and>
      polled (frame_queues s ! 0) = 100 \<and> polled (frame_queues s ! 2) = 100 \<and>
      enqueued (frame_queues s ! 1) = map (dq_feed demo_env 0) [0..<100] \<and>
      enqueued (frame_queues s ! 3) = map (dq_feed demo_env 2) [0..<100])"
proof -
  let ?ts = "map (\<lambda>k. of_nat (100 * k + 100) :: 64 word) [0..<100]"
  note t = loop_exits_with_100_sets[OF startup_ok_grid]
  have inc: "increasing_feed 2 (dq_feed grid_env)"
    unfolding dq_feed_grid by (rule grid_increasing)
  have yl: "\<forall>t\<in>set ?ts. yields 2 (dq_feed grid_env) t"
    unfolding dq_feed_grid by (rule grid_yields)
  have len: "length ?ts = 100" by simp
  have m0: "(of_nat (100 * 0 + 100) :: 64 word) \<in> set ?ts"
    by (rule imageI[of 0 "set [0..<100]" "\<lambda>k. of_nat (100 * k + 100) :: 64 word", folded set_map]) simp
  have m99: "(of_nat (100 * 99 + 100) :: 64 word) \<in> set ?ts"
    by (rule imageI[of 99 "set [0..<100]" "\<lambda>k. of_nat (100 * k + 100) :: 64 word", folded set_map]) simp
  from yl[rule_format, OF m0] have y0: "yields 2 (dq_feed grid_env) 100" by simp
  from yl[rule_format, OF m99] have y99: "yields 2 (dq_feed grid_env) 10000" by simp
  from t[THEN conjunct2, THEN conjunct1, rule_format, of ?ts] inc grid_distinct len yl
  obtain fuel s where s: "sync_loop fuel (dq_feed grid_env) 2 (init_sync 2) = Some (Inr s)"
    by blast
  from t[THEN conjunct1, rule_format, OF s]
  obtain s' where s': "Inr s = (Inr s' :: error + sync_state)" "complete_sets s' = 100"
    "length (log_lines s') = 100"
    "\<forall>i<2. current_frames s' ! i = None \<and>
        enqueued (frame_queues s' ! (i * 2 + 1)) =
          taken (dq_feed grid_env) (i * 2) (polled (frame_queues s' ! (i * 2)))"
    "main fuel grid_env = Some (Exit 0, map Spawn [0..<2] @
                  [Broadcast (bytes_of_u64 (start_timestamp (clock_gettime_ts grid_env))),
                   Broadcast [0x53, 0x54, 0x4F, 0x50]] @
                  map Join [0..<2] @ [FreeFrameBufs, CleanupLogging])"
    by (elim exE conjE)
  from s'(1) have eq: "s' = s" by simp
  have u: "[0..<2] = [0, Suc 0]" by (simp add: upt_rec)
  have i0: "(0::nat) < 2" and i1: "(1::nat) < 2" by simp_all
  have n0: "current_frames s ! 0 = None" using s'(4)[rule_format, OF i0] eq by simp
  have n1: "current_frames s ! 1 = None" using s'(4)[rule_format, OF i1] eq by simp
  have e0: "enqueued (frame_queues s ! 1) = taken (dq_feed grid_env) 0 (polled (frame_queues s ! 0))"
    using s'(4)[rule_format, OF i0] eq by simp
  have e1: "enqueued (frame_queues s ! 3) = taken (dq_feed grid_env) 2 (polled (frame_queues s ! 2))"
    using s'(4)[rule_format, OF i1] eq by simp
  have m: "main fuel grid_env = Some (Exit 0,
        [Spawn 0, Spawn 1,
         Broadcast (bytes_of_u64 (start_timestamp (clock_gettime_ts grid_env))),
         Broadcast [0x53, 0x54, 0x4F, 0x50], Join 0, Join 1, FreeFrameBufs, CleanupLogging])"
    using s'(5) by (simp add: u)
  have c: "complete_sets s = 100" "length (log_lines s) = 100" using s'(2,3) eq by simp_all
  have g: "\<exists>fuel s. sync_loop fuel (dq_feed grid_env) 2 (init_sync 2) = Some (Inr s) \<and>
      complete_sets s = 100 \<and> length (log_lines s) = 100 \<and>
      current_frames s ! 0 = None \<and> current_frames s ! 1 = None \<and>
      enqueued (frame_queues s ! 1) = taken (dq_feed grid_env) 0 (polled (frame_queues s ! 0)) \<and>
      enqueued (frame_queues s ! 3) = taken (dq_feed grid_env) 2 (polled (frame_queues s ! 2)) \<and>
      main fuel grid_env = Some (Exit 0,
        [Spawn 0, Spawn 1,
         Broadcast (bytes_of_u64 (start_timestamp (clock_gettime_ts grid_env))),
         Broadcast [0x53, 0x54, 0x4F, 0x50], Join 0, Join 1, FreeFrameBufs, CleanupLogging])"
    by (rule exI[of _ fuel], rule exI[of _ s]) (intro conjI s c n0 n1 e0 e1 m)
  note d = loop_exits_with_100_sets[OF startup_ok_demo]
  from d[THEN conjunct2, THEN conjunct2, rule_format, OF lockstep_demo]
  obtain z where z: "sync_loop 100 (dq_feed demo_env) 2 (init_sync 2) = Some (Inr z)"
    "\<forall>fuel<100. sync_loop fuel (dq_feed demo_env) 2 (init_sync 2) = None"
    "\<forall>i<2. polled (frame_queues z ! (i * 2)) = 100 \<and>
        enqueued (frame_queues z ! (i * 2 + 1)) = map (dq_feed demo_env (i * 2)) [0..<100]"
    by (elim exE conjE)
  have lt: "(99::nat) < 100" by simp
  have z99: "sync_loop 99 (dq_feed demo_env) 2 (init_sync 2) = None"
    by (rule z(2)[rule_format, OF lt])
  have p0: "polled (frame_queues z ! 0) = 100"
    and q0: "enqueued (frame_queues z ! 1) = map (dq_feed demo_env 0) [0..<100]"
    using z(3)[rule_format, OF i0] by simp_all
  have p1: "polled (frame_queues z ! 2) = 100"
    and q1: "enqueued (frame_queues z ! 3) = map (dq_feed demo_env 2) [0..<100]"
    using z(3)[rule_format, OF i1] by simp_all
  have l: "\<exists>s. sync_loop 100 (dq_feed demo_env) 2 (init_sync 2) = Some (Inr s) \<and>
      sync_loop 99 (dq_feed demo_env) 2 (init_sync 2) = None \<and>
      polled (frame_queues s ! 0) = 100 \<and> polled (frame_queues s ! 2) = 100 \<and>
      enqueued (frame_queues s ! 1) = map (dq_feed demo_env 0) [0..<100] \<and>
      enqueued (frame_queues s ! 3) = map (dq_feed demo_env 2) [0..<100]"
    by (rule exI[of _ z]) (intro conjI z(1) z99 p0 p1 q0 q1)
  show ?thesis
    by (intro conjI startup_ok_grid inc grid_distinct len y0 y99 g startup_ok_demo lockstep_demo l)
qed

text \<open>
  Frames that keep coming are not enough for the loop to exit. With two cameras of which
  one stamps its frames with odd and the other with even numbers, every poll returns a
  frame, no set is ever aligned, and neither the loop nor \<open>main\<close> returns, whatever the
  fuel.
\<close>

theorem supplied_but_never_aligned:
  "(\<forall>q k. never_aligned_feed q k \<noteq> None) \<and>
   (\<forall>fuel. sync_loop fuel never_aligned_feed 2 (init_sync 2) = None) \<and>
   (\<forall>fuel. main fuel (demo_env\<lparr>dq_feed := never_aligned_feed\<rparr>) = None)"
proof (intro conjI allI)
  fix q k show "never_aligned_feed q k \<noteq> None" by (simp add: never_aligned_feed_def)
next
  fix fuel show "sync_loop fuel never_aligned_feed 2 (init_sync 2) = None"
    by (rule spin_forever[OF spin_inv_init])
next
  fix fuel
  have ok: "startup_ok 2 (demo_env\<lparr>dq_feed := never_aligned_feed\<rparr>)"
    by (simp add: startup_ok_def demo_env_def)
  show "main fuel (demo_env\<lparr>dq_feed := never_aligned_feed\<rparr>) = None"
    by (simp add: main_ok[OF ok] spin_forever[OF spin_inv_init])
qed

subsection \<open>C6: exit codes of the startup failures\<close>

text \<open>
  C6. A startup failure makes the process exit with a negative, errno-style code. The
  code at two failing inputs: with a configuration that lists no camera, \<open>count_cameras\<close>
  returns 0, the check \<open>cam_count <= 0\<close> at line 37 takes the error path and line 46
  returns \<open>cam_count\<close>, which is 0; and when \<open>pthread_create\<close> fails, line 150
  returns its result, a positive error number (here \<open>EAGAIN\<close>, 11).
\<close>

theorem zero_cameras_exit_code:
  "main fuel zero_cameras_env = Some (Exit 0, [CleanupLogging]) \<and>
   (\<exists>evs. main fuel spawn_fail_env = Some (Exit 11, evs))"
  by (simp add: main_zero_cameras main_spawn_fail)

subsection \<open>C7: a failed spawn and the workers already running\<close>

text \<open>
  C7. When \<open>pthread_create\<close> fails for worker 1 after worker 0 was spawned, the events
  of \<open>main\<close> are: worker 0 spawned, the pixel allocation freed, the log closed. No stop
  message is broadcast and worker 0 is not joined before line 148 frees the allocation.
\<close>

theorem spawn_failure_frees_without_join:
  "main fuel spawn_fail_env = Some (Exit 11, [Spawn 0, FreeFrameBufs, CleanupLogging])"
  by (rule main_spawn_fail)

subsection \<open>C8: the start anchor\<close>

text \<open>
  C8. The start anchor is 8 bytes that carry a 64-bit value, least significant byte
  first; the value is \<open>(tv_sec + 1) * 10^9 + tv_nsec\<close>, which equals
  \<open>(tv_sec * 10^9 + tv_nsec) + 10^9\<close> for every clock reading, in the arithmetic modulo
  \<open>2^64\<close> of \<open>uint64_t\<close>; where the sum fits in 64 bits it is the number of nanoseconds of
  the reading plus one second, as a natural number. After a successful startup the message
  \<open>main\<close> broadcasts right after spawning the workers is these bytes.
\<close>

theorem start_anchor_is_now_plus_one_second:
  "length (bytes_of_u64 (start_timestamp ts)) = 8 \<and>
   u64_of_bytes (bytes_of_u64 (start_timestamp ts)) = start_timestamp ts \<and>
   start_timestamp ts = (tv_sec ts + 1) * 1000000000 + tv_nsec ts \<and>
   (tv_sec ts + 1) * 1000000000 + tv_nsec ts = (tv_sec ts * 1000000000 + tv_nsec ts) + 1000000000 \<and>
   ((unat (tv_sec ts) + 1) * 1000000000 + unat (tv_nsec ts) < 2 ^ 64 \<longrightarrow>
      unat (start_timestamp ts) = (unat (tv_sec ts) * 1000000000 + unat (tv_nsec ts)) + 1000000000) \<and>
   (startup_ok cam_count e \<longrightarrow>
      (\<forall>fuel out evs. main fuel e = Some (out, evs) \<longrightarrow>
         evs ! cam_count = Broadcast (bytes_of_u64 (now_ns (clock_gettime_ts e) + 1000000000))))"
proof (intro conjI impI allI)
  show "length (bytes_of_u64 (start_timestamp ts)) = 8" by (simp add: bytes_of_u64_def)
  show "u64_of_bytes (bytes_of_u64 (start_timestamp ts)) = start_timestamp ts"
    by (rule u64_roundtrip)
  show "start_timestamp ts = (tv_sec ts + 1) * 1000000000 + tv_nsec ts"
    by (simp add: start_timestamp_def TIMESTAMP_DELAY_def)
  show "(tv_sec ts + 1) * 1000000000 + tv_nsec ts = (tv_sec ts * 1000000000 + tv_nsec ts) + 1000000000"
    by (simp add: algebra_simps)
next
  assume "(unat (tv_sec ts) + 1) * 1000000000 + unat (tv_nsec ts) < 2 ^ 64"
  from start_timestamp_exact[OF this]
  show "unat (start_timestamp ts) = (unat (tv_sec ts) * 1000000000 + unat (tv_nsec ts)) + 1000000000"
    by simp
next
  fix fuel out evs
  assume ok: "startup_ok cam_count e" and m: "main fuel e = Some (out, evs)"
  let ?a = "Broadcast (bytes_of_u64 (start_timestamp (clock_gettime_ts e)))"
  have n: "(map Spawn [0..<cam_count] @ ?a # rest) ! cam_count = ?a" for rest
    by (simp add: nth_append)
  from m have "evs ! cam_count = ?a"
    using n[of "[]"]
      n[of "Broadcast [0x53, 0x54, 0x4F, 0x50] # map Join [0..<cam_count] @ [FreeFrameBufs, CleanupLogging]"]
    by (auto simp: main_ok[OF ok] split: option.splits sum.splits)
  then show "evs ! cam_count = Broadcast (bytes_of_u64 (now_ns (clock_gettime_ts e) + 1000000000))"
    by (simp add: start_timestamp_eq)
qed

theorem start_anchor_is_now_plus_one_second_witness:
  "(unat (tv_sec (clock_gettime_ts demo_env)) + 1) * 1000000000
      + unat (tv_nsec (clock_gettime_ts demo_env)) < 2 ^ 64 \<and>
   unat (start_timestamp (clock_gettime_ts demo_env)) = 1700000000123456789 + 1000000000 \<and>
   startup_ok 2 demo_env \<and>
   (\<exists>out evs. main 100 demo_env = Some (out, evs) \<and>
      evs ! 2 = Broadcast [21, 151, 32, 121, 254, 156, 151, 23])"
proof -
  note t = start_anchor_is_now_plus_one_second[of "clock_gettime_ts demo_env" 2 demo_env]
  have h: "(unat (tv_sec (clock_gettime_ts demo_env)) + 1) * 1000000000
      + unat (tv_nsec (clock_gettime_ts demo_env)) < 2 ^ 64"
    by (simp add: demo_env_def)
  from t[THEN conjunct2, THEN conjunct2, THEN conjunct2, THEN conjunct2, THEN conjunct1, rule_format, OF h]
  have u: "unat (start_timestamp (clock_gettime_ts demo_env)) = 1700000000123456789 + 1000000000"
    by (simp add: demo_env_def)
  from t[THEN conjunct2, THEN conjunct2, THEN conjunct2, THEN conjunct2, THEN conjunct2, rule_format,
      OF startup_ok_demo main_demo]
  have "[Spawn 0, Spawn 1,
         Broadcast (bytes_of_u64 (start_timestamp (clock_gettime_ts demo_env))),
         Broadcast [0x53, 0x54, 0x4F, 0x50], Join 0, Join 1, FreeFrameBufs, CleanupLogging] ! 2 =
        Broadcast (bytes_of_u64 (now_ns (clock_gettime_ts demo_env) + 1000000000))" .
  then have "[Spawn 0, Spawn 1,
         Broadcast (bytes_of_u64 (start_timestamp (clock_gettime_ts demo_env))),
         Broadcast [0x53, 0x54, 0x4F, 0x50], Join 0, Join 1, FreeFrameBufs, CleanupLogging] ! 2 =
        Broadcast [21, 151, 32, 121, 254, 156, 151, 23]"
    by (simp add: demo_clock demo_anchor_bytes)
  with main_demo have "\<exists>out evs. main 100 demo_env = Some (out, evs) \<and>
      evs ! 2 = Broadcast [21, 151, 32, 121, 254, 156, 151, 23]"
    by (intro exI conjI)
  with h u startup_ok_demo show ?thesis by (intro conjI)
qed

subsection \<open>C10: the frame buffers tile the allocation\<close>

text \<open>
  C10. After lines 100 to 103, when the \<open>int\<close> product \<open>cam_count * 32\<close> of line 89
  does not overflow and the product \<open>frame_bufs_count * frame_buf_size\<close> fits in 64
  bits (so that \<open>malloc\<close> was asked for that many bytes): slot \<open>j\<close> points
  at \<open>frame_bufs + j * frame_buf_size\<close>, which is \<open>j * frame_buf_size\<close> bytes into the
  allocation; the timestamps are untouched; the pixel regions of distinct slots are
  disjoint; together the regions are exactly the bytes \<open>0\<close> up to
  \<open>frame_bufs_count * frame_buf_size\<close> of the allocation; and when \<open>frame_buf_size\<close> is
  not 0, distinct slots hold distinct pointers.
\<close>

theorem frame_bufs_tile_allocation:
  assumes "length bufs = frame_bufs_count cam_count"
    and "frame_bufs_count cam_count < 2 ^ 31"
    and "frame_bufs_count cam_count * unat frame_buf_size < 2 ^ 64"
  shows "length (init_frame_bufs frame_bufs frame_buf_size cam_count bufs) = frame_bufs_count cam_count \<and>
     (\<forall>j<frame_bufs_count cam_count.
        frame_buf (init_frame_bufs frame_bufs frame_buf_size cam_count bufs ! j) =
          frame_bufs + of_nat j * frame_buf_size \<and>
        unat (frame_buf (init_frame_bufs frame_bufs frame_buf_size cam_count bufs ! j) - frame_bufs) =
          j * unat frame_buf_size \<and>
        timestamp (init_frame_bufs frame_bufs frame_buf_size cam_count bufs ! j) = timestamp (bufs ! j)) \<and>
     (\<forall>i<frame_bufs_count cam_count. \<forall>j<frame_bufs_count cam_count. i \<noteq> j \<longrightarrow>
        region frame_bufs frame_buf_size (init_frame_bufs frame_bufs frame_buf_size cam_count bufs ! i) \<inter>
        region frame_bufs frame_buf_size (init_frame_bufs frame_bufs frame_buf_size cam_count bufs ! j) = {}) \<and>
     (\<Union>j<frame_bufs_count cam_count.
        region frame_bufs frame_buf_size (init_frame_bufs frame_bufs frame_buf_size cam_count bufs ! j)) =
       {0 ..< frame_bufs_count cam_count * unat frame_buf_size} \<and>
     (0 < frame_buf_size \<longrightarrow>
        (\<forall>i<frame_bufs_count cam_count. \<forall>j<frame_bufs_count cam_count. i \<noteq> j \<longrightarrow>
           frame_buf (init_frame_bufs frame_bufs frame_buf_size cam_count bufs ! i) \<noteq>
           frame_buf (init_frame_bufs frame_bufs frame_buf_size cam_count bufs ! j)))"
proof -
  let ?n = "frame_bufs_count cam_count"
  let ?bufs' = "init_frame_bufs frame_bufs frame_buf_size cam_count bufs"
  let ?s = "unat frame_buf_size"
  have fb: "frame_buf (?bufs' ! j) = frame_bufs + of_nat j * frame_buf_size"
    and tsj: "timestamp (?bufs' ! j) = timestamp (bufs ! j)" if "j < ?n" for j
    using init_frame_bufs_nth[OF assms(1) that] by simp_all
  have off: "unat (frame_buf (?bufs' ! j) - frame_bufs) = j * ?s" if "j < ?n" for j
  proof -
    from that have "j * ?s \<le> ?n * ?s" by (intro mult_le_mono1) simp
    from le_less_trans[OF this assms(3)] have "j * ?s < 2 ^ 64" .
    from unat_offset[OF this] show ?thesis by (simp add: fb[OF that])
  qed
  have reg: "region frame_bufs frame_buf_size (?bufs' ! j) = {j * ?s ..< j * ?s + ?s}"
    if "j < ?n" for j
    by (simp add: region_def off[OF that])
  have dis: "region frame_bufs frame_buf_size (?bufs' ! i) \<inter>
        region frame_bufs frame_buf_size (?bufs' ! j) = {}"
    if "i < ?n" "j < ?n" "i \<noteq> j" for i j
    by (simp only: reg[OF that(1)] reg[OF that(2)] slot_disjoint[OF that(3)])
  have "(\<Union>j<?n. region frame_bufs frame_buf_size (?bufs' ! j)) = (\<Union>j<?n. {j * ?s ..< j * ?s + ?s})"
    by (rule SUP_cong) (simp_all add: reg)
  then have til: "(\<Union>j<?n. region frame_bufs frame_buf_size (?bufs' ! j)) = {0 ..< ?n * ?s}"
    by (simp only: slots_tile)
  have ne: "frame_buf (?bufs' ! i) \<noteq> frame_buf (?bufs' ! j)"
    if "0 < frame_buf_size" "i < ?n" "j < ?n" "i \<noteq> j" for i j
  proof
    assume "frame_buf (?bufs' ! i) = frame_buf (?bufs' ! j)"
    then have "unat (frame_buf (?bufs' ! i) - frame_bufs) = unat (frame_buf (?bufs' ! j) - frame_bufs)"
      by (rule arg_cong)
    then have "i * ?s = j * ?s" unfolding off[OF that(2)] off[OF that(3)] .
    moreover have "0 < ?s" using that(1) by (simp add: word_less_nat_alt)
    ultimately show False using that(4) by simp
  qed
  show ?thesis
    using length_init_frame_bufs[OF assms(1)] fb off tsj dis til ne by (intro conjI allI impI)
qed

theorem frame_bufs_tile_allocation_witness:
  "length (blank_bufs 64) = frame_bufs_count 2 \<and> frame_bufs_count 2 < 2 ^ 31 \<and>
   frame_bufs_count 2 * unat (4096 :: 64 word) < 2 ^ 64 \<and>
   frame_buf (init_frame_bufs 0x7F0000000000 4096 2 (blank_bufs 64) ! 33) = 0x7F0000021000 \<and>
   unat (frame_buf (init_frame_bufs 0x7F0000000000 4096 2 (blank_bufs 64) ! 33) - 0x7F0000000000) = 135168 \<and>
   region 0x7F0000000000 4096 (init_frame_bufs 0x7F0000000000 4096 2 (blank_bufs 64) ! 32) \<inter>
     region 0x7F0000000000 4096 (init_frame_bufs 0x7F0000000000 4096 2 (blank_bufs 64) ! 33) = {} \<and>
   frame_buf (init_frame_bufs 0x7F0000000000 4096 2 (blank_bufs 64) ! 32) \<noteq>
     frame_buf (init_frame_bufs 0x7F0000000000 4096 2 (blank_bufs 64) ! 33)"
proof -
  have l: "length (blank_bufs 64) = frame_bufs_count 2"
    by (simp add: blank_bufs_def frame_bufs_count_def FRAME_BUFS_PER_THREAD_def)
  have r: "frame_bufs_count 2 < 2 ^ 31"
    by (simp add: frame_bufs_count_def FRAME_BUFS_PER_THREAD_def)
  have o: "frame_bufs_count 2 * unat (4096 :: 64 word) < 2 ^ 64"
    by (simp add: frame_bufs_count_def FRAME_BUFS_PER_THREAD_def)
  have i: "32 < frame_bufs_count 2" and j: "33 < frame_bufs_count 2" and ne: "(32::nat) \<noteq> 33"
    by (simp_all add: frame_bufs_count_def FRAME_BUFS_PER_THREAD_def)
  have p: "(0 :: 64 word) < 4096" by simp
  note t = frame_bufs_tile_allocation[OF l r o, of "0x7F0000000000"]
  note t2 = t[THEN conjunct2]
  note t3 = t2[THEN conjunct2]
  note t5 = t3[THEN conjunct2, THEN conjunct2]
  from t2[THEN conjunct1, rule_format, OF j]
  have a: "frame_buf (init_frame_bufs 0x7F0000000000 4096 2 (blank_bufs 64) ! 33) = 0x7F0000021000"
    "unat (frame_buf (init_frame_bufs 0x7F0000000000 4096 2 (blank_bufs 64) ! 33) - 0x7F0000000000) = 135168"
    by simp_all
  from t3[THEN conjunct1, rule_format, OF i j ne]
  have b: "region 0x7F0000000000 4096 (init_frame_bufs 0x7F0000000000 4096 2 (blank_bufs 64) ! 32) \<inter>
     region 0x7F0000000000 4096 (init_frame_bufs 0x7F0000000000 4096 2 (blank_bufs 64) ! 33) = {}" .
  from t5[rule_format, OF p i j ne]
  have c: "frame_buf (init_frame_bufs 0x7F0000000000 4096 2 (blank_bufs 64) ! 32) \<noteq>
     frame_buf (init_frame_bufs 0x7F0000000000 4096 2 (blank_bufs 64) ! 33)" .
  from l r o a b c show ?thesis by (intro conjI)
qed

section \<open>Further properties\<close>

text \<open>
  X1. The loop never dereferences a \<open>NULL\<close> slot: run from its initial state with any
  feed and any number of cameras, it never ends in a fault, and after any number of
  passes the arrays have the sizes they were declared with.
\<close>

theorem loop_never_dereferences_null:
  "sync_loop fuel fd cam_count (init_sync cam_count) \<noteq> Some (Inl e) \<and>
   (\<exists>s. passes n fd cam_count (init_sync cam_count) = Inr s \<and> wf_sync cam_count s)"
proof
  show "sync_loop fuel fd cam_count (init_sync cam_count) \<noteq> Some (Inl e)"
    using sync_loop_exit[OF count_inv_init, of fuel fd cam_count "Inl e"] by auto
  from conserved_passes[OF conserved_init, of n fd cam_count]
  show "\<exists>s. passes n fd cam_count (init_sync cam_count) = Inr s \<and> wf_sync cam_count s"
    by (auto simp: conserved_def)
qed

theorem loop_never_dereferences_null_witness:
  "sync_loop 7 (list_feed s2_frames) 2 (init_sync 2) \<noteq> Some (Inl NullDeref) \<and>
   (\<exists>s. passes 7 (list_feed s2_frames) 2 (init_sync 2) = Inr s \<and> wf_sync 2 s)"
  by (rule loop_never_dereferences_null)

text \<open>
  X2. The synchronizer neither loses nor duplicates a buffer: after any number of passes,
  for every camera, the handles its filled queue has yielded so far are exactly the
  handles passed to its empty queue, in the same order, followed by the frame its slot
  holds, if any.
\<close>

theorem synchronizer_conserves_buffers:
  "\<exists>s. passes n fd cam_count (init_sync cam_count) = Inr s \<and> conserved fd cam_count s"
  by (rule conserved_passes[OF conserved_init])

theorem synchronizer_conserves_buffers_witness:
  "\<exists>s. passes 4 (list_feed s2_frames) 2 (init_sync 2) = Inr s \<and>
      taken (list_feed s2_frames) 0 (polled (frame_queues s ! 0)) = enqueued (frame_queues s ! 1) \<and>
      taken (list_feed s2_frames) 2 (polled (frame_queues s ! 2)) = enqueued (frame_queues s ! 3) \<and>
      current_frames s = [None, None]"
proof -
  from synchronizer_conserves_buffers[of 4 "list_feed s2_frames" 2]
  obtain s where s: "passes 4 (list_feed s2_frames) 2 (init_sync 2) = Inr s"
    "conserved (list_feed s2_frames) 2 s" by blast
  from s(1) have eq: "s = s2_final 4" unfolding s2_passes_4 by simp
  have c: "current_frames s = [None, None]" by (simp add: eq s2_final_def)
  have i0: "(0::nat) < 2" and i1: "(1::nat) < 2" by simp_all
  from s(2) have a: "\<forall>i<2. taken (list_feed s2_frames) (i * 2) (polled (frame_queues s ! (i * 2))) =
          enqueued (frame_queues s ! (i * 2 + 1)) @
          filter (\<lambda>h. h \<noteq> None) [current_frames s ! i]"
    by (simp add: conserved_def)
  from a[rule_format, OF i0] c
  have t0: "taken (list_feed s2_frames) 0 (polled (frame_queues s ! 0)) = enqueued (frame_queues s ! 1)"
    by simp
  from a[rule_format, OF i1] c
  have t1: "taken (list_feed s2_frames) 2 (polled (frame_queues s ! 2)) = enqueued (frame_queues s ! 3)"
    by simp
  show ?thesis by (rule exI[of _ s]) (intro conjI s(1) t0 t1 c)
qed

text \<open>
  X3. The failures before the pixel allocation exists end \<open>main\<close> at once, before any
  worker is spawned: a failed \<open>setup_logging\<close> returns \<open>-errno\<close>; a negative result of
  \<open>count_cameras\<close> is returned as it is, after the log is closed; a failed
  \<open>sched_setaffinity\<close> returns \<open>-errno\<close> and a failed \<open>malloc\<close> returns \<open>-ENOMEM\<close>
  (-12), each after the log is closed.
\<close>

theorem early_failures_return_negated_errno:
  "(setup_logging_ret e \<noteq> 0 \<longrightarrow> main fuel e = Some (Exit (- errno_setup_logging e), [])) \<and>
   (setup_logging_ret e = 0 \<and> count_cameras_ret e < 0 \<longrightarrow>
      main fuel e = Some (Exit (count_cameras_ret e), [CleanupLogging])) \<and>
   (setup_logging_ret e = 0 \<and> 0 < count_cameras_ret e \<and> parse_conf_ret e = 0 \<and>
    sched_setaffinity_ret e = - 1 \<longrightarrow>
      main fuel e = Some (Exit (- errno_sched_setaffinity e), [CleanupLogging])) \<and>
   (setup_logging_ret e = 0 \<and> 0 < count_cameras_ret e \<and> parse_conf_ret e = 0 \<and>
    sched_setaffinity_ret e \<noteq> - 1 \<and> malloc_ret e = 0 \<longrightarrow>
      main fuel e = Some (Exit (- 12), [CleanupLogging]))"
  by (simp add: main_def ENOMEM_def Let_def)

theorem early_failures_return_negated_errno_witness:
  "setup_logging_ret affinity_fail_env = 0 \<and> 0 < count_cameras_ret affinity_fail_env \<and>
   parse_conf_ret affinity_fail_env = 0 \<and> sched_setaffinity_ret affinity_fail_env = - 1 \<and>
   main 0 affinity_fail_env = Some (Exit (- 22), [CleanupLogging])"
proof -
  have h: "setup_logging_ret affinity_fail_env = 0 \<and> 0 < count_cameras_ret affinity_fail_env \<and>
    parse_conf_ret affinity_fail_env = 0 \<and> sched_setaffinity_ret affinity_fail_env = - 1"
    by (simp add: affinity_fail_env_def demo_env_def)
  from early_failures_return_negated_errno[of affinity_fail_env 0,
      THEN conjunct2, THEN conjunct2, THEN conjunct1, rule_format, OF h]
  have "main 0 affinity_fail_env = Some (Exit (- errno_sched_setaffinity affinity_fail_env), [CleanupLogging])" .
  then have "main 0 affinity_fail_env = Some (Exit (- 22), [CleanupLogging])"
    by (simp add: affinity_fail_env_def)
  with h show ?thesis by simp
qed

end
